theory Spec2Isabelle
  imports Complex_Main "HOL-Library.Finite_Map"
begin

section \<open>Query pagination of the GraphQL compiler\<close>

text \<open>
  A shallow embedding of \<^verbatim>\<open>graphql_compiler/query_pagination/__init__.py\<close> and
  \<^verbatim>\<open>graphql_compiler/query_pagination/query_parameterizer.py\<close>.
  Python names that start with an underscore lose it (\<^verbatim>\<open>_estimate_number_of_pages\<close> is
  \<open>estimate_number_of_pages\<close>), since an Isabelle name starts with a letter.
  Every \<^verbatim>\<open>raise\<close> of the source, and every failing attribute access, index,
  unpacking or float operation, is a value \<open>Inl e\<close> of the result type \<open>error + 'a\<close>.
\<close>

subsection \<open>Errors and literal values\<close>

datatype error =
    ValueError
  | AssertionError
  | NotImplementedError
  | AttributeError
  | IndexError
  | GraphQLError
  | DanglingReference
  | OverflowError
  | ZeroDivisionError

text \<open>Parameter values (\<^verbatim>\<open>Any\<close> in the source): the literals a boundary can be.\<close>

datatype pvalue = IntLit int | StrLit string

subsection \<open>The AST of graphql-core, as far as the pagination code reads it\<close>

datatype value_node =
    StringValueNode string
  | IntValueNode string
  | VariableNode string
  | ListValueNode "value_node list"

datatype argument_node = ArgumentNode (arg_name: string) (arg_value: value_node)

datatype directive_node = DirectiveNode (directive_name: string) (arguments: "argument_node list")

text \<open>
  The attribute \<^verbatim>\<open>.value\<close> exists on string and integer value nodes, \<^verbatim>\<open>.values\<close> on list
  value nodes only. The source reaches both through \<^verbatim>\<open>typing.cast\<close>, which checks nothing.
\<close>

fun attr_value :: "value_node \<Rightarrow> error + string" where
  "attr_value (StringValueNode s) = Inr s"
| "attr_value (IntValueNode s) = Inr s"
| "attr_value (VariableNode n) = Inl AttributeError"
| "attr_value (ListValueNode vs) = Inl AttributeError"

fun attr_values :: "value_node \<Rightarrow> error + value_node list" where
  "attr_values (ListValueNode vs) = Inr vs"
| "attr_values (StringValueNode s) = Inl AttributeError"
| "attr_values (IntValueNode s) = Inl AttributeError"
| "attr_values (VariableNode n) = Inl AttributeError"

text \<open>
  The node kinds that occur in a selection set, and the operation root. A node built
  with keyword arguments has \<^verbatim>\<open>None\<close> in every attribute that was not given, hence the
  options. \<open>selection_set\<close> holds the \<^verbatim>\<open>selections\<close> of the \<^verbatim>\<open>SelectionSetNode\<close>.
\<close>

datatype ast_node =
    FieldNode (field_alias: "string option") (name_value: string)
      (field_arguments: "argument_node list option")
      (directives: "directive_node list") (selection_set: "ast_node list option")
  | InlineFragmentNode (type_condition: string)
      (directives: "directive_node list") (selection_set: "ast_node list option")
  | OperationDefinitionNode (operation_type: string) (operation_name: "string option")
      (directives: "directive_node list") (selection_set: "ast_node list option")
  | FragmentSpreadNode (spread_name: string) (directives: "directive_node list")

datatype document_node = DocumentNode (definitions: "ast_node list")

subsection \<open>Python floats\<close>

text \<open>
  \<^verbatim>\<open>result_size\<close> is a Python float, an IEEE 754 binary64 number: a finite value, an
  infinity or a NaN. \<open>Finite x\<close> is the float of value \<open>x\<close>. The two zeros are one value
  here: the estimator divides by the page size only, which is at least \<open>1\<close>, and
  \<^verbatim>\<open>int\<close> of either zero is \<open>0\<close>, so no result depends on the sign of a zero. Every
  operation below returns a float when its arguments are floats; \<open>Finite x\<close> for an \<open>x\<close>
  that binary64 does not have stands for no float.
\<close>

datatype pyfloat = Finite real | PosInf | NegInf | NaN

fun is_finite :: "pyfloat \<Rightarrow> bool" where
  "is_finite (Finite x) = True"
| "is_finite PosInf = False"
| "is_finite NegInf = False"
| "is_finite NaN = False"

text \<open>
  The least positive float is \<open>2^-1074\<close> and the largest float is
  \<open>2^1024 - 2^971\<close>. A value of magnitude \<open>2^1024 - 2^970\<close> or more, half a
  spacing above the largest float, rounds to an infinity.
\<close>

definition smallest_float :: real where
  "smallest_float = 1 / 2 ^ 1074"

definition max_float :: real where
  "max_float = 2 ^ 1024 - 2 ^ 971"

definition overflow_bound :: real where
  "overflow_bound = 2 ^ 1024 - 2 ^ 970"

text \<open>
  Rounding to nearest, ties to even, the rounding of every float operation. The floats
  between \<open>2^e\<close> and \<open>2^(e+1)\<close> are the multiples of \<open>2^(e-52)\<close>, and those below \<open>2^-1022\<close>
  the multiples of the least positive float: \<open>spacing x\<close> is that distance around \<open>x\<close>,
  found by a search from the largest exponent down, and \<open>round_to_float x\<close> is the
  multiple of it nearest to \<open>x\<close>, the even multiple at a tie.
\<close>

definition round_half_even :: "real \<Rightarrow> int" where
  "round_half_even x =
     (let n = \<lfloor>x\<rfloor> in
      if x - of_int n < 1 / 2 then n
      else if 1 / 2 < x - of_int n then n + 1
      else if even n then n else n + 1)"

fun spacing_from :: "nat \<Rightarrow> real \<Rightarrow> real" where
  "spacing_from 0 a = smallest_float"
| "spacing_from (Suc k) a =
     (if 2 ^ (Suc k + 52) * smallest_float \<le> a then 2 ^ Suc k * smallest_float
      else spacing_from k a)"

definition spacing :: "real \<Rightarrow> real" where
  "spacing x = spacing_from 2045 \<bar>x\<bar>"

definition round_to_float :: "real \<Rightarrow> pyfloat" where
  "round_to_float x =
     (if overflow_bound \<le> x then PosInf
      else if x \<le> - overflow_bound then NegInf
      else Finite (of_int (round_half_even (x / spacing x)) * spacing x))"

text \<open>
  An int operand of a float operation is converted to a float first, correctly rounded;
  an int too large for a float raises \<^verbatim>\<open>OverflowError\<close>. \<^verbatim>\<open>int\<close> of a float truncates
  towards zero, and raises \<^verbatim>\<open>ValueError\<close> for a NaN and \<^verbatim>\<open>OverflowError\<close> for an infinity.
\<close>

definition float_of_int :: "int \<Rightarrow> error + pyfloat" where
  "float_of_int n =
     (case round_to_float (of_int n) of
        Finite x \<Rightarrow> Inr (Finite x)
      | _ \<Rightarrow> Inl OverflowError)"

fun int_of_float :: "pyfloat \<Rightarrow> error + int" where
  "int_of_float (Finite x) = Inr (if 0 \<le> x then \<lfloor>x\<rfloor> else \<lceil>x\<rceil>)"
| "int_of_float NaN = Inl ValueError"
| "int_of_float PosInf = Inl OverflowError"
| "int_of_float NegInf = Inl OverflowError"

text \<open>Comparison, negation, addition and subtraction of floats.\<close>

fun float_less :: "pyfloat \<Rightarrow> pyfloat \<Rightarrow> bool" where
  "float_less (Finite x) (Finite y) = (x < y)"
| "float_less (Finite x) PosInf = True"
| "float_less (Finite x) NegInf = False"
| "float_less (Finite x) NaN = False"
| "float_less PosInf b = False"
| "float_less NegInf (Finite y) = True"
| "float_less NegInf PosInf = True"
| "float_less NegInf NegInf = False"
| "float_less NegInf NaN = False"
| "float_less NaN b = False"

fun float_neg :: "pyfloat \<Rightarrow> pyfloat" where
  "float_neg (Finite x) = Finite (- x)"
| "float_neg PosInf = NegInf"
| "float_neg NegInf = PosInf"
| "float_neg NaN = NaN"

fun float_add :: "pyfloat \<Rightarrow> pyfloat \<Rightarrow> pyfloat" where
  "float_add (Finite x) (Finite y) = round_to_float (x + y)"
| "float_add (Finite x) PosInf = PosInf"
| "float_add (Finite x) NegInf = NegInf"
| "float_add (Finite x) NaN = NaN"
| "float_add PosInf (Finite y) = PosInf"
| "float_add PosInf PosInf = PosInf"
| "float_add PosInf NegInf = NaN"
| "float_add PosInf NaN = NaN"
| "float_add NegInf (Finite y) = NegInf"
| "float_add NegInf PosInf = NaN"
| "float_add NegInf NegInf = NegInf"
| "float_add NegInf NaN = NaN"
| "float_add NaN b = NaN"

definition float_sub :: "pyfloat \<Rightarrow> pyfloat \<Rightarrow> pyfloat" where
  "float_sub a b = float_add a (float_neg b)"

text \<open>
  Floor division \<^verbatim>\<open>//\<close> of floats, as CPython computes it: a zero divisor raises
  \<^verbatim>\<open>ZeroDivisionError\<close>; otherwise the remainder is C's \<^verbatim>\<open>fmod\<close>, which is exact and has
  the sign of the dividend; the quotient is \<^verbatim>\<open>(vx - mod) / wx\<close>, lowered by one when the
  remainder is not zero and its sign differs from the divisor's; and the result is the
  floor of the quotient, raised by one when the quotient is more than a half above it.
  \<open>rest\<close> and \<open>ratio\<close> are \<^verbatim>\<open>mod\<close> and \<^verbatim>\<open>div\<close> of the C source, names that HOL has in
  use. \<open>float_div\<close> is the division inside, which floor division reaches with a
  divisor that is not zero only; the quotient by a zero depends on the sign of the
  zero, and is left a NaN here.
\<close>

fun float_div :: "pyfloat \<Rightarrow> pyfloat \<Rightarrow> pyfloat" where
  "float_div (Finite x) (Finite y) = (if y = 0 then NaN else round_to_float (x / y))"
| "float_div (Finite x) PosInf = Finite 0"
| "float_div (Finite x) NegInf = Finite 0"
| "float_div (Finite x) NaN = NaN"
| "float_div PosInf (Finite y) = (if y = 0 then NaN else if 0 < y then PosInf else NegInf)"
| "float_div PosInf PosInf = NaN"
| "float_div PosInf NegInf = NaN"
| "float_div PosInf NaN = NaN"
| "float_div NegInf (Finite y) = (if y = 0 then NaN else if 0 < y then NegInf else PosInf)"
| "float_div NegInf PosInf = NaN"
| "float_div NegInf NegInf = NaN"
| "float_div NegInf NaN = NaN"
| "float_div NaN b = NaN"

fun float_fmod :: "pyfloat \<Rightarrow> pyfloat \<Rightarrow> pyfloat" where
  "float_fmod (Finite x) (Finite y) =
     (if y = 0 then NaN
      else Finite (x - y * of_int (if 0 \<le> x / y then \<lfloor>x / y\<rfloor> else \<lceil>x / y\<rceil>)))"
| "float_fmod (Finite x) PosInf = Finite x"
| "float_fmod (Finite x) NegInf = Finite x"
| "float_fmod (Finite x) NaN = NaN"
| "float_fmod PosInf b = NaN"
| "float_fmod NegInf b = NaN"
| "float_fmod NaN b = NaN"

fun float_floor :: "pyfloat \<Rightarrow> pyfloat" where
  "float_floor (Finite x) = Finite (of_int \<lfloor>x\<rfloor>)"
| "float_floor PosInf = PosInf"
| "float_floor NegInf = NegInf"
| "float_floor NaN = NaN"

definition float_floor_div :: "pyfloat \<Rightarrow> pyfloat \<Rightarrow> error + pyfloat" where
  "float_floor_div vx wx =
     (if wx = Finite 0 then Inl ZeroDivisionError
      else
        let rest = float_fmod vx wx;
            ratio = float_div (float_sub vx rest) wx;
            ratio =
              (if rest \<noteq> Finite 0 \<and>
                  float_less wx (Finite 0) \<noteq> float_less rest (Finite 0)
               then float_sub ratio (Finite 1) else ratio)
        in Inr (if ratio \<noteq> Finite 0
                then
                  let floordiv = float_floor ratio
                  in if float_less (Finite (1 / 2)) (float_sub ratio floordiv)
                     then float_add floordiv (Finite 1) else floordiv
                else Finite 0))"

subsection \<open>The boundary estimator\<close>

text \<open>
  \<^verbatim>\<open>_estimate_number_of_pages(query, result_size, page_size)\<close>. \<open>page_size\<close> is an
  unbounded Python int. The query is read by the error messages only. In
  \<^verbatim>\<open>int((result_size + page_size - 1) // page_size)\<close> the sum converts \<open>page_size\<close> to a
  float, the difference converts \<open>1\<close>, which is the float \<open>1\<close>, and the floor division
  converts \<open>page_size\<close> again, to the same float.
\<close>

definition estimate_number_of_pages :: "'q \<Rightarrow> pyfloat \<Rightarrow> int \<Rightarrow> error + int" where
  "estimate_number_of_pages query result_size page_size =
     (if page_size < 1 then Inl ValueError
      else if float_less result_size (Finite 0) then Inl AssertionError
      else
        (case float_of_int page_size of
           Inl e \<Rightarrow> Inl e
         | Inr w \<Rightarrow>
             (case float_floor_div (float_sub (float_add result_size w) (Finite 1)) w of
                Inl e \<Rightarrow> Inl e
              | Inr ratio \<Rightarrow>
                  (case int_of_float ratio of
                     Inl e \<Rightarrow> Inl e
                   | Inr num_pages \<Rightarrow> Inr (if num_pages = 0 then 1 else num_pages)))))"

subsection \<open>Building and reading filter directives\<close>

text \<open>
  \<^verbatim>\<open>get_parameter_name\<close> lives in \<^verbatim>\<open>compiler/helpers.py\<close>, which is not among the
  sources: the functions that call it take it as the parameter \<open>get_parameter_name\<close>.
\<close>

definition get_binary_filter_node_parameter ::
  "(string \<Rightarrow> error + string) \<Rightarrow> directive_node \<Rightarrow> error + string" where
  "get_binary_filter_node_parameter get_parameter_name filter_directive =
     (case arguments filter_directive of
        a0 # a1 # rest \<Rightarrow>
          (case attr_values (arg_value a1) of
             Inl e \<Rightarrow> Inl e
           | Inr filter_arguments \<Rightarrow>
               (case filter_arguments of
                  [v] \<Rightarrow>
                    (case attr_value v of
                       Inl e \<Rightarrow> Inl e
                     | Inr argument_name \<Rightarrow> get_parameter_name argument_name)
                | _ \<Rightarrow> Inl AssertionError))
      | _ \<Rightarrow> Inl IndexError)"

definition get_filter_node_operation :: "directive_node \<Rightarrow> error + string" where
  "get_filter_node_operation filter_directive =
     (case arguments filter_directive of
        [] \<Rightarrow> Inl IndexError
      | a0 # rest \<Rightarrow> attr_value (arg_value a0))"

definition make_binary_filter_directive_node :: "string \<Rightarrow> string \<Rightarrow> directive_node" where
  "make_binary_filter_directive_node op_name param_name =
     DirectiveNode ''filter''
       [ArgumentNode ''op_name'' (StringValueNode op_name),
        ArgumentNode ''value'' (ListValueNode [StringValueNode (''$'' @ param_name)])]"

subsection \<open>Fresh parameter names\<close>

text \<open>
  \<^verbatim>\<open>"{}_{}".format(base_name, index)\<close>: the base name, an underscore and the decimal
  digits of the index, which Python writes without leading zeros.
\<close>

definition digit_char :: "nat \<Rightarrow> char" where
  "digit_char d = ''0123456789'' ! d"

fun str_of_nat :: "nat \<Rightarrow> string" where
  "str_of_nat n =
     (if n < 10 then [digit_char n] else str_of_nat (n div 10) @ [digit_char (n mod 10)])"

declare str_of_nat.simps [simp del]

definition format_name :: "string \<Rightarrow> nat \<Rightarrow> string" where
  "format_name base_name index = base_name @ ''_'' @ str_of_nat index"

lemma digit_char_inj:
  assumes "d < 10" and "e < 10" and "digit_char d = digit_char e"
  shows "d = e"
proof -
  have "distinct ''0123456789''" by simp
  moreover have "d < length ''0123456789''" and "e < length ''0123456789''"
    using assms by simp_all
  ultimately show "d = e"
    using assms(3) unfolding digit_char_def by (simp only: nth_eq_iff_index_eq)
qed

lemma str_of_nat_not_Nil: "str_of_nat n \<noteq> []" "[] \<noteq> str_of_nat n"
  by (subst str_of_nat.simps, simp)+

lemma str_of_nat_inj: "str_of_nat m = str_of_nat n \<Longrightarrow> m = n"
proof (induction m arbitrary: n rule: str_of_nat.induct)
  case (1 m)
  show ?case
  proof (cases "m < 10")
    case m: True
    show ?thesis
    proof (cases "n < 10")
      case True
      with m "1.prems" show ?thesis
        by (simp add: str_of_nat.simps [of m] str_of_nat.simps [of n] digit_char_inj)
    next
      case False
      with m "1.prems" show ?thesis
        by (simp add: str_of_nat.simps [of m] str_of_nat.simps [of n] str_of_nat_not_Nil)
    qed
  next
    case m: False
    show ?thesis
    proof (cases "n < 10")
      case True
      with m "1.prems" show ?thesis
        by (simp add: str_of_nat.simps [of m] str_of_nat.simps [of n] str_of_nat_not_Nil)
    next
      case False
      with m "1.prems" have eq: "str_of_nat (m div 10) = str_of_nat (n div 10)"
        and dg: "digit_char (m mod 10) = digit_char (n mod 10)"
        by (simp_all add: str_of_nat.simps [of m] str_of_nat.simps [of n])
      from "1.IH" [OF m eq] have "m div 10 = n div 10" .
      moreover have "m mod 10 = n mod 10"
        by (rule digit_char_inj [OF _ _ dg]) simp_all
      ultimately show ?thesis by (metis div_mult_mod_eq)
    qed
  qed
qed

lemma format_name_inj: "inj (format_name b)"
  by (rule injI) (simp add: format_name_def str_of_nat_inj)

lemma finite_taken_indices: "finite {j. format_name b j |\<in>| t}"
proof -
  have "finite (format_name b -` fset t)"
    by (rule finite_vimageI) (simp_all add: format_name_inj)
  then show ?thesis by (simp add: vimage_def)
qed

text \<open>
  \<^verbatim>\<open>_generate_new_name\<close>: the \<^verbatim>\<open>while\<close> loop, with its counter as the third argument.
  A Python set is finite, so \<open>taken_names\<close> is a finite set; the loop ends because the
  names of different indices differ, so only finitely many of them are taken.
\<close>

function generate_new_name_from :: "string \<Rightarrow> string fset \<Rightarrow> nat \<Rightarrow> string" where
  "generate_new_name_from base_name taken_names index =
     (if format_name base_name index |\<in>| taken_names
      then generate_new_name_from base_name taken_names (Suc index)
      else format_name base_name index)"
  by pat_completeness auto
termination
proof (relation "measure (\<lambda>(b, t, i). card {j. i \<le> j \<and> format_name b j |\<in>| t})")
  show "wf (measure (\<lambda>(b, t, i). card {j. i \<le> j \<and> format_name b j |\<in>| t}))" by simp
next
  fix base_name :: string and taken_names :: "string fset" and index :: nat
  assume taken: "format_name base_name index |\<in>| taken_names"
  let ?A = "{j. Suc index \<le> j \<and> format_name base_name j |\<in>| taken_names}"
  let ?B = "{j. index \<le> j \<and> format_name base_name j |\<in>| taken_names}"
  have fin: "finite ?B"
    using finite_taken_indices [of base_name taken_names] by simp
  have "?A \<subseteq> ?B" by auto
  moreover have "index \<in> ?B" and "index \<notin> ?A" using taken by simp_all
  ultimately have "?A \<subset> ?B" by blast
  then have "card ?A < card ?B"
    using fin by (rule psubset_card_mono [rotated])
  then show "((base_name, taken_names, Suc index), (base_name, taken_names, index))
        \<in> measure (\<lambda>(b, t, i). card {j. i \<le> j \<and> format_name b j |\<in>| t})"
    by simp
qed

declare generate_new_name_from.simps [simp del]

definition generate_new_name :: "string \<Rightarrow> string fset \<Rightarrow> string" where
  "generate_new_name base_name taken_names = generate_new_name_from base_name taken_names 0"

subsection \<open>Injecting the pagination filter\<close>

text \<open>
  \<^verbatim>\<open>copy(node)\<close> followed by an assignment to one attribute of the copy: the node with
  that attribute replaced. Every selection kind has \<^verbatim>\<open>directives\<close>.
  \<open>with_selections\<close> is applied after the \<^verbatim>\<open>isinstance\<close> check only, so its last
  equation is never reached.
\<close>

fun is_selection_capable :: "ast_node \<Rightarrow> bool" where
  "is_selection_capable (FieldNode a n args ds ss) = True"
| "is_selection_capable (InlineFragmentNode t ds ss) = True"
| "is_selection_capable (OperationDefinitionNode oper n ds ss) = True"
| "is_selection_capable (FragmentSpreadNode n ds) = False"

fun with_directives :: "ast_node \<Rightarrow> directive_node list \<Rightarrow> ast_node" where
  "with_directives (FieldNode a n args ds ss) new_directives = FieldNode a n args new_directives ss"
| "with_directives (InlineFragmentNode t ds ss) new_directives = InlineFragmentNode t new_directives ss"
| "with_directives (OperationDefinitionNode oper n ds ss) new_directives =
     OperationDefinitionNode oper n new_directives ss"
| "with_directives (FragmentSpreadNode n ds) new_directives = FragmentSpreadNode n new_directives"

fun with_selections :: "ast_node \<Rightarrow> ast_node list \<Rightarrow> ast_node" where
  "with_selections (FieldNode a n args ds ss) new_selections =
     FieldNode a n args ds (Some new_selections)"
| "with_selections (InlineFragmentNode t ds ss) new_selections =
     InlineFragmentNode t ds (Some new_selections)"
| "with_selections (OperationDefinitionNode oper n ds ss) new_selections =
     OperationDefinitionNode oper n ds (Some new_selections)"
| "with_selections (FragmentSpreadNode n ds) new_selections = FragmentSpreadNode n ds"

text \<open>
  The inner loop of \<^verbatim>\<open>_add_pagination_filter\<close> over the directives of the pagination
  field. Its state is the pair of the lists \<^verbatim>\<open>new_directives\<close> and
  \<^verbatim>\<open>removed_parameters\<close>, which the loop appends to.
\<close>

fun prune_directives ::
  "(string \<Rightarrow> error + string) \<Rightarrow> directive_node \<Rightarrow> directive_node list \<Rightarrow>
   directive_node list \<times> string list \<Rightarrow> error + (directive_node list \<times> string list)" where
  "prune_directives get_parameter_name directive_to_add [] state = Inr state"
| "prune_directives get_parameter_name directive_to_add (directive # rest)
     (new_directives, removed_parameters) =
     (case get_filter_node_operation directive of
        Inl e \<Rightarrow> Inl e
      | Inr operation \<Rightarrow>
          (case get_filter_node_operation directive_to_add of
             Inl e \<Rightarrow> Inl e
           | Inr operation_to_add \<Rightarrow>
               if operation = operation_to_add then
                 (case get_binary_filter_node_parameter get_parameter_name directive of
                    Inl e \<Rightarrow> Inl e
                  | Inr parameter_name \<Rightarrow>
                      prune_directives get_parameter_name directive_to_add rest
                        (new_directives, removed_parameters @ [parameter_name]))
               else
                 prune_directives get_parameter_name directive_to_add rest
                   (new_directives @ [directive], removed_parameters)))"

text \<open>
  The loop over the selections of the target vertex (the branch
  \<^verbatim>\<open>len(query_path) == 0\<close>). Its state is \<^verbatim>\<open>new_selections\<close>, \<^verbatim>\<open>removed_parameters\<close> and
  \<^verbatim>\<open>found_field\<close>. \<^verbatim>\<open>get_ast_field_name\<close> lives in \<^verbatim>\<open>ast_manipulation.py\<close>, which is
  not among the sources: it is the parameter \<open>get_ast_field_name\<close>.
\<close>

fun vertex_selections ::
  "(ast_node \<Rightarrow> error + string) \<Rightarrow> (string \<Rightarrow> error + string) \<Rightarrow> string \<Rightarrow> directive_node \<Rightarrow>
   ast_node list \<Rightarrow> ast_node list \<times> string list \<times> bool \<Rightarrow>
   error + (ast_node list \<times> string list \<times> bool)" where
  "vertex_selections get_ast_field_name get_parameter_name pagination_field directive_to_add
     [] state = Inr state"
| "vertex_selections get_ast_field_name get_parameter_name pagination_field directive_to_add
     (selection_ast # rest) (new_selections, removed_parameters, found_field) =
     (case get_ast_field_name selection_ast of
        Inl e \<Rightarrow> Inl e
      | Inr field_name \<Rightarrow>
          if field_name = pagination_field then
            (case prune_directives get_parameter_name directive_to_add
                    (directives selection_ast) ([], removed_parameters) of
               Inl e \<Rightarrow> Inl e
             | Inr (new_directives, removed_parameters') \<Rightarrow>
                 vertex_selections get_ast_field_name get_parameter_name pagination_field
                   directive_to_add rest
                   (new_selections @
                      [with_directives selection_ast (new_directives @ [directive_to_add])],
                    removed_parameters', True))
          else
            vertex_selections get_ast_field_name get_parameter_name pagination_field
              directive_to_add rest
              (new_selections @ [selection_ast], removed_parameters, found_field))"

text \<open>
  \<^verbatim>\<open>_add_pagination_filter\<close>, with the loop of its recursive branch as
  \<open>path_selections\<close>: \<open>segment\<close> is \<^verbatim>\<open>query_path[0]\<close> and \<open>path_rest\<close> is
  \<^verbatim>\<open>query_path[1:]\<close>. With an empty path and no selection set,
  \<^verbatim>\<open>query_ast.selection_set.selections\<close> reads an attribute of \<^verbatim>\<open>None\<close>.
\<close>

fun add_pagination_filter ::
  "(ast_node \<Rightarrow> error + string) \<Rightarrow> (string \<Rightarrow> error + string) \<Rightarrow> ast_node \<Rightarrow> string list \<Rightarrow>
   string \<Rightarrow> directive_node \<Rightarrow> error + (ast_node \<times> string list)"
and path_selections ::
  "(ast_node \<Rightarrow> error + string) \<Rightarrow> (string \<Rightarrow> error + string) \<Rightarrow> string \<Rightarrow> string list \<Rightarrow>
   string \<Rightarrow> directive_node \<Rightarrow> ast_node list \<Rightarrow> ast_node list \<times> string list \<times> bool \<Rightarrow>
   error + (ast_node list \<times> string list \<times> bool)" where
  "add_pagination_filter get_ast_field_name get_parameter_name query_ast [] pagination_field
     directive_to_add =
     (if \<not> is_selection_capable query_ast then Inl AssertionError
      else
        (case selection_set query_ast of
           None \<Rightarrow> Inl AttributeError
         | Some selections \<Rightarrow>
             (case vertex_selections get_ast_field_name get_parameter_name pagination_field
                     directive_to_add selections ([], [], False) of
                Inl e \<Rightarrow> Inl e
              | Inr (new_selections, removed_parameters, found_field) \<Rightarrow>
                  Inr (with_selections query_ast
                         (if \<not> found_field
                          then FieldNode None pagination_field None [directive_to_add] None
                                 # new_selections
                          else new_selections),
                       removed_parameters))))"
| "add_pagination_filter get_ast_field_name get_parameter_name query_ast (segment # path_rest)
     pagination_field directive_to_add =
     (if \<not> is_selection_capable query_ast then Inl AssertionError
      else
        (case selection_set query_ast of
           None \<Rightarrow> Inl AssertionError
         | Some selections \<Rightarrow>
             (case path_selections get_ast_field_name get_parameter_name segment path_rest
                     pagination_field directive_to_add selections ([], [], False) of
                Inl e \<Rightarrow> Inl e
              | Inr (new_selections, removed_parameters, found_field) \<Rightarrow>
                  if \<not> found_field then Inl AssertionError
                  else Inr (with_selections query_ast new_selections, removed_parameters))))"
| "path_selections get_ast_field_name get_parameter_name segment path_rest pagination_field
     directive_to_add [] state = Inr state"
| "path_selections get_ast_field_name get_parameter_name segment path_rest pagination_field
     directive_to_add (selection_ast # rest) (new_selections, removed_parameters, found_field) =
     (case get_ast_field_name selection_ast of
        Inl e \<Rightarrow> Inl e
      | Inr field_name \<Rightarrow>
          if field_name = segment then
            (case add_pagination_filter get_ast_field_name get_parameter_name selection_ast
                    path_rest pagination_field directive_to_add of
               Inl e \<Rightarrow> Inl e
             | Inr (new_selection_ast, sub_removed_parameters) \<Rightarrow>
                 path_selections get_ast_field_name get_parameter_name segment path_rest
                   pagination_field directive_to_add rest
                   (new_selections @ [new_selection_ast],
                    removed_parameters @ sub_removed_parameters, True))
          else
            path_selections get_ast_field_name get_parameter_name segment path_rest
              pagination_field directive_to_add rest
              (new_selections @ [selection_ast], removed_parameters, found_field))"

subsection \<open>The injection on a store of objects\<close>

text \<open>
  The graphql-core nodes are mutable objects, and \<^verbatim>\<open>_add_pagination_filter\<close> works by
  \<^verbatim>\<open>copy\<close> and by assignment to attributes. To say what it leaves untouched, the same
  code is modelled once more on a store: an object has an address, a selection set
  holds the addresses of its selections, \<^verbatim>\<open>copy(node)\<close> allocates a new object with the
  attributes of the old one, and an assignment \<^verbatim>\<open>node.attribute = value\<close> writes to the
  object at the address that the variable \<^verbatim>\<open>node\<close> holds. The store is the list of all
  objects, an address is a position in it, and a new object goes to the end.
  Directives are values: the code never assigns to an attribute of a directive. The
  lists \<^verbatim>\<open>new_selections\<close>, \<^verbatim>\<open>new_directives\<close> and \<^verbatim>\<open>removed_parameters\<close> are made by the
  function itself and are the only lists it appends to: they are values of the loop
  states, as above.
\<close>

datatype heap_node =
    FieldObject "string option" string "argument_node list option" "directive_node list"
      "nat list option"
  | InlineFragmentObject string "directive_node list" "nat list option"
  | OperationDefinitionObject string "string option" "directive_node list" "nat list option"
  | FragmentSpreadObject string "directive_node list"

type_synonym store = "heap_node list"

fun object_directives :: "heap_node \<Rightarrow> directive_node list" where
  "object_directives (FieldObject a n args ds ss) = ds"
| "object_directives (InlineFragmentObject t ds ss) = ds"
| "object_directives (OperationDefinitionObject oper n ds ss) = ds"
| "object_directives (FragmentSpreadObject n ds) = ds"

fun object_selections :: "heap_node \<Rightarrow> nat list option" where
  "object_selections (FieldObject a n args ds ss) = ss"
| "object_selections (InlineFragmentObject t ds ss) = ss"
| "object_selections (OperationDefinitionObject oper n ds ss) = ss"
| "object_selections (FragmentSpreadObject n ds) = None"

fun object_is_selection_capable :: "heap_node \<Rightarrow> bool" where
  "object_is_selection_capable (FieldObject a n args ds ss) = True"
| "object_is_selection_capable (InlineFragmentObject t ds ss) = True"
| "object_is_selection_capable (OperationDefinitionObject oper n ds ss) = True"
| "object_is_selection_capable (FragmentSpreadObject n ds) = False"

text \<open>
  A Python reference always leads to an object. An address is a number, so the model
  must say what reading beyond the store gives: the error \<open>DanglingReference\<close>, which
  no run from a store without such addresses (\<open>closed\<close>, below) meets.
\<close>

definition lookup :: "store \<Rightarrow> nat \<Rightarrow> error + heap_node" where
  "lookup h a = (if a < length h then Inr (h ! a) else Inl DanglingReference)"

definition allocate :: "store \<Rightarrow> heap_node \<Rightarrow> store \<times> nat" where
  "allocate h obj = (h @ [obj], length h)"

definition copy_object :: "store \<Rightarrow> nat \<Rightarrow> error + (store \<times> nat)" where
  "copy_object h a = (case lookup h a of Inl e \<Rightarrow> Inl e | Inr obj \<Rightarrow> Inr (allocate h obj))"

fun with_object_directives :: "heap_node \<Rightarrow> directive_node list \<Rightarrow> heap_node" where
  "with_object_directives (FieldObject a n args ds ss) new_directives =
     FieldObject a n args new_directives ss"
| "with_object_directives (InlineFragmentObject t ds ss) new_directives =
     InlineFragmentObject t new_directives ss"
| "with_object_directives (OperationDefinitionObject oper n ds ss) new_directives =
     OperationDefinitionObject oper n new_directives ss"
| "with_object_directives (FragmentSpreadObject n ds) new_directives =
     FragmentSpreadObject n new_directives"

fun with_object_selections :: "heap_node \<Rightarrow> nat list \<Rightarrow> heap_node" where
  "with_object_selections (FieldObject a n args ds ss) new_selections =
     FieldObject a n args ds (Some new_selections)"
| "with_object_selections (InlineFragmentObject t ds ss) new_selections =
     InlineFragmentObject t ds (Some new_selections)"
| "with_object_selections (OperationDefinitionObject oper n ds ss) new_selections =
     OperationDefinitionObject oper n ds (Some new_selections)"
| "with_object_selections (FragmentSpreadObject n ds) new_selections = FragmentSpreadObject n ds"

definition assign_directives :: "store \<Rightarrow> nat \<Rightarrow> directive_node list \<Rightarrow> store" where
  "assign_directives h a ds = h[a := with_object_directives (h ! a) ds]"

definition assign_selection_set :: "store \<Rightarrow> nat \<Rightarrow> nat list \<Rightarrow> store" where
  "assign_selection_set h a sels = h[a := with_object_selections (h ! a) sels]"

text \<open>
  The loop over the selections of the target vertex. The copy of the selection gets
  the copied directive list first and the pruned one, with the new directive, after
  the loop over \<^verbatim>\<open>selection_ast.directives\<close>, which reads the selection itself.
\<close>

fun store_vertex_selections ::
  "(heap_node \<Rightarrow> error + string) \<Rightarrow> (string \<Rightarrow> error + string) \<Rightarrow> string \<Rightarrow> directive_node \<Rightarrow>
   nat list \<Rightarrow> store \<times> nat list \<times> string list \<times> bool \<Rightarrow>
   error + (store \<times> nat list \<times> string list \<times> bool)" where
  "store_vertex_selections get_ast_field_name get_parameter_name pagination_field
     directive_to_add [] state = Inr state"
| "store_vertex_selections get_ast_field_name get_parameter_name pagination_field
     directive_to_add (selection_ast # rest) (h, new_selections, removed_parameters, found_field) =
     (case lookup h selection_ast of
        Inl e \<Rightarrow> Inl e
      | Inr selection_object \<Rightarrow>
     (case get_ast_field_name selection_object of
        Inl e \<Rightarrow> Inl e
      | Inr field_name \<Rightarrow>
          if field_name = pagination_field then
            (case copy_object h selection_ast of
               Inl e \<Rightarrow> Inl e
             | Inr (h1, new_selection_ast) \<Rightarrow>
            (let h2 = assign_directives h1 new_selection_ast (object_directives selection_object) in
            (case lookup h2 selection_ast of
               Inl e \<Rightarrow> Inl e
             | Inr selection_object' \<Rightarrow>
            (case prune_directives get_parameter_name directive_to_add
                    (object_directives selection_object') ([], removed_parameters) of
               Inl e \<Rightarrow> Inl e
             | Inr (new_directives, removed_parameters') \<Rightarrow>
                 store_vertex_selections get_ast_field_name get_parameter_name pagination_field
                   directive_to_add rest
                   (assign_directives h2 new_selection_ast (new_directives @ [directive_to_add]),
                    new_selections @ [new_selection_ast], removed_parameters', True)))))
          else
            store_vertex_selections get_ast_field_name get_parameter_name pagination_field
              directive_to_add rest
              (h, new_selections @ [selection_ast], removed_parameters, found_field)))"

text \<open>
  \<^verbatim>\<open>_add_pagination_filter\<close> and the loop of its recursive branch. The new field of the
  branch \<^verbatim>\<open>not found_field\<close> is a new object; \<^verbatim>\<open>copy(query_ast)\<close> comes last, and the new
  selection set is assigned to the copy.
\<close>

fun store_add_pagination_filter ::
  "(heap_node \<Rightarrow> error + string) \<Rightarrow> (string \<Rightarrow> error + string) \<Rightarrow> store \<Rightarrow> nat \<Rightarrow> string list \<Rightarrow>
   string \<Rightarrow> directive_node \<Rightarrow> error + (store \<times> nat \<times> string list)"
and store_path_selections ::
  "(heap_node \<Rightarrow> error + string) \<Rightarrow> (string \<Rightarrow> error + string) \<Rightarrow> string \<Rightarrow> string list \<Rightarrow>
   string \<Rightarrow> directive_node \<Rightarrow> nat list \<Rightarrow> store \<times> nat list \<times> string list \<times> bool \<Rightarrow>
   error + (store \<times> nat list \<times> string list \<times> bool)" where
  "store_add_pagination_filter get_ast_field_name get_parameter_name h query_ast []
     pagination_field directive_to_add =
     (case lookup h query_ast of
        Inl e \<Rightarrow> Inl e
      | Inr query_object \<Rightarrow>
          if \<not> object_is_selection_capable query_object then Inl AssertionError
          else
            (case object_selections query_object of
               None \<Rightarrow> Inl AttributeError
             | Some selections \<Rightarrow>
            (case store_vertex_selections get_ast_field_name get_parameter_name
                    pagination_field directive_to_add selections (h, [], [], False) of
               Inl e \<Rightarrow> Inl e
             | Inr (h1, new_selections, removed_parameters, found_field) \<Rightarrow>
            (case (if \<not> found_field
                   then (case allocate h1
                                 (FieldObject None pagination_field None [directive_to_add] None) of
                           (h2, new_field) \<Rightarrow> (h2, new_field # new_selections))
                   else (h1, new_selections)) of
               (h2, new_selections') \<Rightarrow>
            (case copy_object h2 query_ast of
               Inl e \<Rightarrow> Inl e
             | Inr (h3, new_ast) \<Rightarrow>
                 Inr (assign_selection_set h3 new_ast new_selections', new_ast,
                      removed_parameters))))))"
| "store_add_pagination_filter get_ast_field_name get_parameter_name h query_ast
     (segment # path_rest) pagination_field directive_to_add =
     (case lookup h query_ast of
        Inl e \<Rightarrow> Inl e
      | Inr query_object \<Rightarrow>
          if \<not> object_is_selection_capable query_object then Inl AssertionError
          else
            (case object_selections query_object of
               None \<Rightarrow> Inl AssertionError
             | Some selections \<Rightarrow>
            (case store_path_selections get_ast_field_name get_parameter_name segment
                    path_rest pagination_field directive_to_add selections
                    (h, [], [], False) of
               Inl e \<Rightarrow> Inl e
             | Inr (h1, new_selections, removed_parameters, found_field) \<Rightarrow>
                 if \<not> found_field then Inl AssertionError
                 else
                   (case copy_object h1 query_ast of
                      Inl e \<Rightarrow> Inl e
                    | Inr (h2, new_ast) \<Rightarrow>
                        Inr (assign_selection_set h2 new_ast new_selections, new_ast,
                             removed_parameters)))))"
| "store_path_selections get_ast_field_name get_parameter_name segment path_rest
     pagination_field directive_to_add [] state = Inr state"
| "store_path_selections get_ast_field_name get_parameter_name segment path_rest
     pagination_field directive_to_add (selection_ast # rest)
     (h, new_selections, removed_parameters, found_field) =
     (case lookup h selection_ast of
        Inl e \<Rightarrow> Inl e
      | Inr selection_object \<Rightarrow>
     (case get_ast_field_name selection_object of
        Inl e \<Rightarrow> Inl e
      | Inr field_name \<Rightarrow>
          if field_name = segment then
            (case store_add_pagination_filter get_ast_field_name get_parameter_name h
                    selection_ast path_rest pagination_field directive_to_add of
               Inl e \<Rightarrow> Inl e
             | Inr (h1, new_selection_ast, sub_removed_parameters) \<Rightarrow>
                 store_path_selections get_ast_field_name get_parameter_name segment path_rest
                   pagination_field directive_to_add rest
                   (h1, new_selections @ [new_selection_ast],
                    removed_parameters @ sub_removed_parameters, True))
          else
            store_path_selections get_ast_field_name get_parameter_name segment path_rest
              pagination_field directive_to_add rest
              (h, new_selections @ [selection_ast], removed_parameters, found_field)))"

text \<open>
  \<^verbatim>\<open>generate_parameterized_queries\<close> on the store, called as its signature says, with
  the attributes of its arguments as arguments: the definitions of the query's
  document (addresses) and its parameters, the path and the field of the partition.
  The second injection runs on the store that the first one leaves. The dict
  comprehensions build new dicts, and nothing in the code assigns into
  \<^verbatim>\<open>query.parameters\<close>: the parameters are a value.
\<close>

definition store_generate_parameterized_queries ::
  "(store \<Rightarrow> nat list \<Rightarrow> error + nat) \<Rightarrow> (heap_node \<Rightarrow> error + string) \<Rightarrow>
   (string \<Rightarrow> error + string) \<Rightarrow> store \<Rightarrow> nat list \<Rightarrow> (string, pvalue) fmap \<Rightarrow>
   string list \<Rightarrow> string \<Rightarrow>
   error + (store \<times> (nat list \<times> (string, pvalue) fmap) \<times>
            (nat list \<times> (string, pvalue) fmap) \<times> string)" where
  "store_generate_parameterized_queries get_only_query_definition get_ast_field_name
     get_parameter_name h query_definitions query_parameters query_path pagination_field =
     (case get_only_query_definition h query_definitions of
        Inl e \<Rightarrow> Inl e
      | Inr query_type \<Rightarrow>
     (let param_name = generate_new_name ''__paged_param'' (fmdom query_parameters) in
     (case store_add_pagination_filter get_ast_field_name get_parameter_name h query_type
             query_path pagination_field
             (make_binary_filter_directive_node ''<'' param_name) of
        Inl e \<Rightarrow> Inl e
      | Inr (h1, next_page_root, next_page_removed_parameters) \<Rightarrow>
     (case store_add_pagination_filter get_ast_field_name get_parameter_name h1 query_type
             query_path pagination_field
             (make_binary_filter_directive_node ''>='' param_name) of
        Inl e \<Rightarrow> Inl e
      | Inr (h2, remainder_root, remainder_removed_parameters) \<Rightarrow>
     (let page_parameters =
            fmfilter (\<lambda>k. k \<notin> set next_page_removed_parameters) query_parameters;
          remainder_parameters =
            fmfilter (\<lambda>k. k \<notin> set remainder_removed_parameters) query_parameters
      in Inr (h2, ([next_page_root], page_parameters),
              ([remainder_root], remainder_parameters), param_name))))))"

subsection \<open>What stays, and what a store holds\<close>

text \<open>
  \<open>extends h h'\<close>: the objects of \<open>h\<close> are in \<open>h'\<close>, each at its address and with
  every attribute as it was. \<open>closed h\<close>: the selection sets of \<open>h\<close> hold addresses of
  \<open>h\<close>. \<open>shares gfn h h' path f a a'\<close>: the object at \<open>a'\<close> in \<open>h'\<close> is new and is the
  rebuilt object of \<open>a\<close>; along the path its selections are the rebuilt ones where the
  field name is the next segment and the very addresses of the old selections
  elsewhere; at the end of the path the selections on the field \<open>f\<close> are new objects
  and the others keep their addresses, behind one new field when no selection is on
  \<open>f\<close>.
\<close>

definition extends :: "store \<Rightarrow> store \<Rightarrow> bool" where
  "extends h h' = (take (length h) h' = h)"

definition closed :: "store \<Rightarrow> bool" where
  "closed h =
     list_all (\<lambda>obj. case object_selections obj of
                        None \<Rightarrow> True
                      | Some sels \<Rightarrow> list_all (\<lambda>c. c < length h) sels) h"

definition selections_at :: "store \<Rightarrow> nat \<Rightarrow> nat list option" where
  "selections_at h a = (if a < length h then object_selections (h ! a) else None)"

definition name_at :: "(heap_node \<Rightarrow> error + string) \<Rightarrow> store \<Rightarrow> nat \<Rightarrow> error + string" where
  "name_at gfn h a = (case lookup h a of Inl e \<Rightarrow> Inl e | Inr obj \<Rightarrow> gfn obj)"

fun shares ::
  "(heap_node \<Rightarrow> error + string) \<Rightarrow> store \<Rightarrow> store \<Rightarrow> string list \<Rightarrow> string \<Rightarrow> nat \<Rightarrow> nat \<Rightarrow> bool" where
  "shares gfn h h' [] f a a' =
     (length h \<le> a' \<and> a' < length h' \<and>
      (case selections_at h a of
         None \<Rightarrow> False
       | Some sels \<Rightarrow>
           (case selections_at h' a' of
              None \<Rightarrow> False
            | Some sels' \<Rightarrow>
                if list_ex (\<lambda>c. name_at gfn h c = Inr f) sels
                then list_all2 (\<lambda>c c'. if name_at gfn h c = Inr f
                                         then length h \<le> c' \<and> c' < length h' else c' = c)
                       sels sels'
                else (case sels' of
                        [] \<Rightarrow> False
                      | c' # rest \<Rightarrow> length h \<le> c' \<and> c' < length h' \<and> rest = sels))))"
| "shares gfn h h' (p # ps) f a a' =
     (length h \<le> a' \<and> a' < length h' \<and>
      (case selections_at h a of
         None \<Rightarrow> False
       | Some sels \<Rightarrow>
           (case selections_at h' a' of
              None \<Rightarrow> False
            | Some sels' \<Rightarrow>
                list_all2 (\<lambda>c c'. if name_at gfn h c = Inr p
                                    then shares gfn h h' ps f c c' else c' = c)
                  sels sels')))"

text \<open>
  \<open>represents h a t\<close>: the object at \<open>a\<close> and the objects below it, read from the
  store, are the tree \<open>t\<close>.
\<close>

fun same_attributes :: "heap_node \<Rightarrow> ast_node \<Rightarrow> bool" where
  "same_attributes (FieldObject a n args ds ss) (FieldNode a' n' args' ds' ss') =
     (a = a' \<and> n = n' \<and> args = args' \<and> ds = ds')"
| "same_attributes (InlineFragmentObject t ds ss) (InlineFragmentNode t' ds' ss') =
     (t = t' \<and> ds = ds')"
| "same_attributes (OperationDefinitionObject oper n ds ss) (OperationDefinitionNode oper' n' ds' ss') =
     (oper = oper' \<and> n = n' \<and> ds = ds')"
| "same_attributes (FragmentSpreadObject n ds) (FragmentSpreadNode n' ds') = (n = n' \<and> ds = ds')"
| "same_attributes obj t = False"

fun represents :: "store \<Rightarrow> nat \<Rightarrow> ast_node \<Rightarrow> bool"
and represents_list :: "store \<Rightarrow> nat list \<Rightarrow> ast_node list \<Rightarrow> bool" where
  "represents h a (FieldNode al n args ds ss) =
     (a < length h \<and> same_attributes (h ! a) (FieldNode al n args ds ss) \<and>
      (case ss of
         None \<Rightarrow> object_selections (h ! a) = None
       | Some ts \<Rightarrow> (case object_selections (h ! a) of
                      None \<Rightarrow> False | Some as \<Rightarrow> represents_list h as ts)))"
| "represents h a (InlineFragmentNode t ds ss) =
     (a < length h \<and> same_attributes (h ! a) (InlineFragmentNode t ds ss) \<and>
      (case ss of
         None \<Rightarrow> object_selections (h ! a) = None
       | Some ts \<Rightarrow> (case object_selections (h ! a) of
                      None \<Rightarrow> False | Some as \<Rightarrow> represents_list h as ts)))"
| "represents h a (OperationDefinitionNode oper n ds ss) =
     (a < length h \<and> same_attributes (h ! a) (OperationDefinitionNode oper n ds ss) \<and>
      (case ss of
         None \<Rightarrow> object_selections (h ! a) = None
       | Some ts \<Rightarrow> (case object_selections (h ! a) of
                      None \<Rightarrow> False | Some as \<Rightarrow> represents_list h as ts)))"
| "represents h a (FragmentSpreadNode n ds) =
     (a < length h \<and> same_attributes (h ! a) (FragmentSpreadNode n ds))"
| "represents_list h [] [] = True"
| "represents_list h (a # as) (t # ts) = (represents h a t \<and> represents_list h as ts)"
| "represents_list h [] (t # ts) = False"
| "represents_list h (a # as) [] = False"

fun tree_selections :: "ast_node \<Rightarrow> ast_node list option" where
  "tree_selections (FieldNode a n args ds ss) = ss"
| "tree_selections (InlineFragmentNode t ds ss) = ss"
| "tree_selections (OperationDefinitionNode oper n ds ss) = ss"
| "tree_selections (FragmentSpreadNode n ds) = None"

subsection \<open>Queries, plans and the values that are passed around\<close>

text \<open>
  \<^verbatim>\<open>ASTWithParameters\<close> and \<^verbatim>\<open>QueryStringWithParameters\<close> (of \<^verbatim>\<open>global_utils.py\<close>) pair a
  query with its parameter dict; a dict is a finite map.
  \<^verbatim>\<open>VertexPartitionPlan\<close>, \<^verbatim>\<open>PaginationPlan\<close> and \<^verbatim>\<open>PaginationAdvisory\<close> (of
  \<^verbatim>\<open>pagination_planning.py\<close>), \<^verbatim>\<open>QueryPlanningAnalysis\<close> (of
  \<^verbatim>\<open>cost_estimation/analysis.py\<close>) and \<^verbatim>\<open>PageAndRemainder\<close> (of \<^verbatim>\<open>typedefs.py\<close>) are
  declared in files that are not among the sources. Modelled from the spec: each has
  the attributes that the spec's data model lists and that the code reads, under the
  names the code uses. The schema information is opaque: it is the type parameter
  \<open>'s\<close>.
\<close>

datatype ast_with_parameters =
  ASTWithParameters (query_ast: document_node) (parameters: "(string, pvalue) fmap")

datatype query_string_with_parameters =
  QueryStringWithParameters (query_string: string) (string_parameters: "(string, pvalue) fmap")

datatype vertex_partition_plan =
  VertexPartitionPlan (query_path: "string list") (pagination_field: string)
    (number_of_splits: int)

datatype pagination_plan = PaginationPlan (vertex_partitions: "vertex_partition_plan list")

datatype pagination_advisory = PaginationAdvisory (message: string)

datatype 's query_planning_analysis =
  QueryPlanningAnalysis (schema_info: 's)
    (query_string_with_parameters: query_string_with_parameters)
    (ast_with_parameters: ast_with_parameters) (cardinality_estimate: pyfloat)

datatype 'q page_and_remainder = PageAndRemainder 'q int 'q "'q list"

text \<open>
  Python checks no argument types: a call passes objects, and the callee finds out what
  they are when it reads an attribute. \<open>pyobj\<close> is the union of the objects that the
  pagination code passes to a function or puts in a tuple; reading an attribute that
  the object's class does not have raises \<^verbatim>\<open>AttributeError\<close>.
\<close>

datatype 's pyobj =
    AnalysisObj "'s query_planning_analysis"
  | SchemaInfoObj 's
  | QueryObj ast_with_parameters
  | PartitionObj vertex_partition_plan
  | ValueObj pvalue
  | StrObj string

fun attr_query_ast :: "'s pyobj \<Rightarrow> error + document_node" where
  "attr_query_ast (QueryObj q) = Inr (query_ast q)"
| "attr_query_ast (AnalysisObj a) = Inl AttributeError"
| "attr_query_ast (SchemaInfoObj s) = Inl AttributeError"
| "attr_query_ast (PartitionObj p) = Inl AttributeError"
| "attr_query_ast (ValueObj v) = Inl AttributeError"
| "attr_query_ast (StrObj s) = Inl AttributeError"

fun attr_parameters :: "'s pyobj \<Rightarrow> error + (string, pvalue) fmap" where
  "attr_parameters (QueryObj q) = Inr (parameters q)"
| "attr_parameters (AnalysisObj a) = Inl AttributeError"
| "attr_parameters (SchemaInfoObj s) = Inl AttributeError"
| "attr_parameters (PartitionObj p) = Inl AttributeError"
| "attr_parameters (ValueObj v) = Inl AttributeError"
| "attr_parameters (StrObj s) = Inl AttributeError"

fun attr_query_path :: "'s pyobj \<Rightarrow> error + string list" where
  "attr_query_path (PartitionObj p) = Inr (query_path p)"
| "attr_query_path (AnalysisObj a) = Inl AttributeError"
| "attr_query_path (SchemaInfoObj s) = Inl AttributeError"
| "attr_query_path (QueryObj q) = Inl AttributeError"
| "attr_query_path (ValueObj v) = Inl AttributeError"
| "attr_query_path (StrObj s) = Inl AttributeError"

fun attr_pagination_field :: "'s pyobj \<Rightarrow> error + string" where
  "attr_pagination_field (PartitionObj p) = Inr (pagination_field p)"
| "attr_pagination_field (AnalysisObj a) = Inl AttributeError"
| "attr_pagination_field (SchemaInfoObj s) = Inl AttributeError"
| "attr_pagination_field (QueryObj q) = Inl AttributeError"
| "attr_pagination_field (ValueObj v) = Inl AttributeError"
| "attr_pagination_field (StrObj s) = Inl AttributeError"

subsection \<open>The query parameterizer\<close>

text \<open>
  \<^verbatim>\<open>generate_parameterized_queries(schema_info, query, vertex_partition)\<close>, statement by
  statement. It returns a tuple of three objects: the two queries and the parameter
  name. \<^verbatim>\<open>get_only_query_definition\<close> lives in \<^verbatim>\<open>ast_manipulation.py\<close>, which is not among
  the sources: it is the parameter \<open>get_only_query_definition\<close>. The dict comprehensions
  keep the entries whose key is not in the list of removed parameters.
\<close>

definition generate_parameterized_queries ::
  "(document_node \<Rightarrow> error + ast_node) \<Rightarrow> (ast_node \<Rightarrow> error + string) \<Rightarrow>
   (string \<Rightarrow> error + string) \<Rightarrow> 's pyobj \<Rightarrow> 's pyobj \<Rightarrow> 's pyobj \<Rightarrow> error + 's pyobj list" where
  "generate_parameterized_queries get_only_query_definition get_ast_field_name
     get_parameter_name schema_info_arg query vertex_partition =
     (case attr_query_ast query of
        Inl e \<Rightarrow> Inl e
      | Inr document \<Rightarrow>
     (case get_only_query_definition document of
        Inl e \<Rightarrow> Inl e
      | Inr query_type \<Rightarrow>
     (case attr_parameters query of
        Inl e \<Rightarrow> Inl e
      | Inr query_parameters \<Rightarrow>
     (let param_name = generate_new_name ''__paged_param'' (fmdom query_parameters) in
     (case attr_query_path vertex_partition of
        Inl e \<Rightarrow> Inl e
      | Inr path \<Rightarrow>
     (case attr_pagination_field vertex_partition of
        Inl e \<Rightarrow> Inl e
      | Inr field \<Rightarrow>
     (case add_pagination_filter get_ast_field_name get_parameter_name query_type path field
             (make_binary_filter_directive_node ''<'' param_name) of
        Inl e \<Rightarrow> Inl e
      | Inr (next_page_root, next_page_removed_parameters) \<Rightarrow>
     (case add_pagination_filter get_ast_field_name get_parameter_name query_type path field
             (make_binary_filter_directive_node ''>='' param_name) of
        Inl e \<Rightarrow> Inl e
      | Inr (remainder_root, remainder_removed_parameters) \<Rightarrow>
     (let page_parameters =
            fmfilter (\<lambda>k. k \<notin> set next_page_removed_parameters) query_parameters;
          remainder_parameters =
            fmfilter (\<lambda>k. k \<notin> set remainder_removed_parameters) query_parameters;
          next_page = ASTWithParameters (DocumentNode [next_page_root]) page_parameters;
          remainder = ASTWithParameters (DocumentNode [remainder_root]) remainder_parameters
      in Inr [QueryObj next_page, QueryObj remainder, StrObj param_name])))))))))"

subsection \<open>The pagination orchestrator\<close>

text \<open>
  The assignment \<^verbatim>\<open>page_query, remainder_query = ...\<close> unpacks a tuple of exactly two
  values, and raises \<^verbatim>\<open>ValueError\<close> on a tuple of any other length.
\<close>

fun unpack_pair :: "'a list \<Rightarrow> error + ('a \<times> 'a)" where
  "unpack_pair [a, b] = Inr (a, b)"
| "unpack_pair other = Inl ValueError"

text \<open>
  \<^verbatim>\<open>paginate_query_ast(query_analysis, page_size)\<close>. The partition-plan selector
  \<^verbatim>\<open>get_pagination_plan\<close> and the parameter generator
  \<^verbatim>\<open>generate_parameters_for_vertex_partition\<close> live in files that are not among the
  sources: both are parameters, and either may raise. The generator is the list of the
  values it would yield, of which \<^verbatim>\<open>next(parameter_generator, sentinel)\<close> takes the
  first. The call of \<^verbatim>\<open>generate_parameterized_queries\<close> passes, in this order, the
  analysis, the partition plan and the first parameter value.
\<close>

definition paginate_query_ast ::
  "('s query_planning_analysis \<Rightarrow> int \<Rightarrow> error + (pagination_plan \<times> pagination_advisory list)) \<Rightarrow>
   ('s \<Rightarrow> ast_with_parameters \<Rightarrow> vertex_partition_plan \<Rightarrow> error + pvalue list) \<Rightarrow>
   (document_node \<Rightarrow> error + ast_node) \<Rightarrow> (ast_node \<Rightarrow> error + string) \<Rightarrow>
   (string \<Rightarrow> error + string) \<Rightarrow> 's query_planning_analysis \<Rightarrow> int \<Rightarrow>
   error + ('s pyobj page_and_remainder \<times> pagination_advisory list)" where
  "paginate_query_ast get_pagination_plan generate_parameters_for_vertex_partition
     get_only_query_definition get_ast_field_name get_parameter_name query_analysis page_size =
     (if page_size < 1 then Inl ValueError
      else
        let page_query = QueryObj (ast_with_parameters query_analysis);
            remainder_queries = [];
            advisories = [];
            result_size = cardinality_estimate query_analysis
        in
        (case estimate_number_of_pages (query_string_with_parameters query_analysis)
                result_size page_size of
           Inl e \<Rightarrow> Inl e
         | Inr num_pages \<Rightarrow>
             (case
                (if num_pages > 1 then
                   (case get_pagination_plan query_analysis num_pages of
                      Inl e \<Rightarrow> Inl e
                    | Inr (pagination_plan, plan_advisories) \<Rightarrow>
                        if length (vertex_partitions pagination_plan) = 0 then
                          Inr (page_query, remainder_queries, plan_advisories)
                        else if length (vertex_partitions pagination_plan) = 1 then
                          (let plan_vertex_partition = vertex_partitions pagination_plan ! 0 in
                           (case generate_parameters_for_vertex_partition
                                   (schema_info query_analysis)
                                   (ast_with_parameters query_analysis)
                                   plan_vertex_partition of
                              Inl e \<Rightarrow> Inl e
                            | Inr parameter_generator \<Rightarrow>
                                (case parameter_generator of
                                   [] \<Rightarrow> Inr (page_query, remainder_queries, plan_advisories)
                                 | first_param # later_params \<Rightarrow>
                                     (case generate_parameterized_queries
                                             get_only_query_definition get_ast_field_name
                                             get_parameter_name
                                             (AnalysisObj query_analysis)
                                             (PartitionObj plan_vertex_partition)
                                             (ValueObj first_param) of
                                        Inl e \<Rightarrow> Inl e
                                      | Inr returned \<Rightarrow>
                                          (case unpack_pair returned of
                                             Inl e \<Rightarrow> Inl e
                                           | Inr (split_page_query, remainder_query) \<Rightarrow>
                                               Inr (split_page_query, [remainder_query],
                                                    plan_advisories))))))
                        else Inl NotImplementedError)
                 else Inr (page_query, remainder_queries, advisories)) of
                Inl e \<Rightarrow> Inl e
              | Inr (final_page_query, final_remainder_queries, final_advisories) \<Rightarrow>
                  Inr (PageAndRemainder (QueryObj (ast_with_parameters query_analysis))
                         page_size final_page_query final_remainder_queries,
                       final_advisories))))"

subsection \<open>What the spec says of the filter injection\<close>








text \<open>
  When the injection returns: every read of the code succeeds. \<open>directive_readable\<close>
  is about a directive of a child on the pagination field, \<open>rewritable\<close> about a node
  and the path below it, on which the next segment must name a child.
\<close>

definition succeeds :: "error + 'a \<Rightarrow> bool" where
  "succeeds r = (case r of Inl e \<Rightarrow> False | Inr x \<Rightarrow> True)"




subsection \<open>What the spec says of the parameters a query refers to\<close>

text \<open>
  In the words of the spec's data model: the parameter names referenced by the filters
  of a query's AST. A filter refers to a parameter by a string \<^verbatim>\<open>$name\<close> among its
  arguments.
\<close>

fun value_parameters :: "value_node \<Rightarrow> string list" where
  "value_parameters (StringValueNode s) =
     (case s of [] \<Rightarrow> [] | c # rest \<Rightarrow> if c = CHR ''$'' then [rest] else [])"
| "value_parameters (IntValueNode s) = []"
| "value_parameters (VariableNode n) = []"
| "value_parameters (ListValueNode vs) = concat (map value_parameters vs)"

definition directive_parameters :: "directive_node \<Rightarrow> string list" where
  "directive_parameters d =
     (if directive_name d = ''filter''
      then concat (map (\<lambda>a. value_parameters (arg_value a)) (arguments d)) else [])"

fun referenced_parameters :: "ast_node \<Rightarrow> string list"
and referenced_parameters_list :: "ast_node list \<Rightarrow> string list" where
  "referenced_parameters (FieldNode a n args ds ss) =
     concat (map directive_parameters ds) @
     (case ss of None \<Rightarrow> [] | Some sels \<Rightarrow> referenced_parameters_list sels)"
| "referenced_parameters (InlineFragmentNode t ds ss) =
     concat (map directive_parameters ds) @
     (case ss of None \<Rightarrow> [] | Some sels \<Rightarrow> referenced_parameters_list sels)"
| "referenced_parameters (OperationDefinitionNode oper n ds ss) =
     concat (map directive_parameters ds) @
     (case ss of None \<Rightarrow> [] | Some sels \<Rightarrow> referenced_parameters_list sels)"
| "referenced_parameters (FragmentSpreadNode n ds) = concat (map directive_parameters ds)"
| "referenced_parameters_list [] = []"
| "referenced_parameters_list (s # rest) = referenced_parameters s @ referenced_parameters_list rest"

subsection \<open>Helpers outside the sources, and a query to run the code on\<close>

text \<open>
  Modelled from the spec: \<^verbatim>\<open>get_ast_field_name\<close>, \<^verbatim>\<open>get_only_query_definition\<close> (both of
  \<^verbatim>\<open>ast_manipulation.py\<close>) and \<^verbatim>\<open>get_parameter_name\<close> (of \<^verbatim>\<open>compiler/helpers.py\<close>) are
  missing from the sources. The spec speaks of the field name of a child selection, of
  the operation root of a query and of the parameter name that a filter refers to: the
  name of a field node, the only definition of a document when it is an operation
  root, and the argument \<^verbatim>\<open>$name\<close> without its prefix. The theorems below hold for
  every choice of the three helpers; these definitions serve the concrete examples.
\<close>

fun get_ast_field_name :: "ast_node \<Rightarrow> error + string" where
  "get_ast_field_name (FieldNode a n args ds ss) = Inr n"
| "get_ast_field_name (InlineFragmentNode t ds ss) = Inl AttributeError"
| "get_ast_field_name (OperationDefinitionNode oper n ds ss) = Inl AttributeError"
| "get_ast_field_name (FragmentSpreadNode n ds) = Inr n"

fun get_parameter_name :: "string \<Rightarrow> error + string" where
  "get_parameter_name [] = Inl IndexError"
| "get_parameter_name (c # rest) = (if c = CHR ''$'' then Inr rest else Inl AssertionError)"

fun get_only_query_definition :: "document_node \<Rightarrow> error + ast_node" where
  "get_only_query_definition (DocumentNode [OperationDefinitionNode oper n ds ss]) =
     Inr (OperationDefinitionNode oper n ds ss)"
| "get_only_query_definition (DocumentNode other) = Inl GraphQLError"

text \<open>
  The query of the repository's test \<^verbatim>\<open>test_basic_pagination\<close>, an \<^verbatim>\<open>Animal\<close> vertex with
  its \<^verbatim>\<open>name\<close> as output, with no parameters; and the same query with an earlier
  filter \<^verbatim>\<open>uuid < $old\<close> on the pagination field.
\<close>

definition output_animal :: directive_node where
  "output_animal = DirectiveNode ''output'' [ArgumentNode ''out_name'' (StringValueNode ''animal'')]"

definition name_field :: ast_node where
  "name_field = FieldNode None ''name'' (Some []) [output_animal] None"

definition animal_vertex :: "ast_node list \<Rightarrow> ast_node" where
  "animal_vertex sels = FieldNode None ''Animal'' (Some []) [] (Some sels)"

definition query_root :: "ast_node list \<Rightarrow> ast_node" where
  "query_root sels = OperationDefinitionNode ''query'' None [] (Some [animal_vertex sels])"

definition animal_query :: ast_with_parameters where
  "animal_query = ASTWithParameters (DocumentNode [query_root [name_field]]) fmempty"

definition old_filter :: directive_node where
  "old_filter = make_binary_filter_directive_node ''<'' ''old''"

definition uuid_field :: "directive_node list \<Rightarrow> ast_node" where
  "uuid_field ds = FieldNode None ''uuid'' (Some []) ds None"

definition filtered_query :: ast_with_parameters where
  "filtered_query =
     ASTWithParameters (DocumentNode [query_root [uuid_field [old_filter], name_field]])
       (fmupd ''old'' (StrLit ''80000000-0000-0000-0000-000000000000'') fmempty)"

definition animal_analysis :: "unit query_planning_analysis" where
  "animal_analysis =
     QueryPlanningAnalysis () (QueryStringWithParameters ''{ Animal { name } }'' fmempty)
       animal_query (Finite 4)"

definition animal_partition :: vertex_partition_plan where
  "animal_partition = VertexPartitionPlan [''Animal''] ''uuid'' 4"

text \<open>
  The query with the earlier filter as a store of four objects, the helper that reads
  the name of an object, and the stores after one injection and after
  \<^verbatim>\<open>generate_parameterized_queries\<close>.
\<close>

fun node_field_name :: "heap_node \<Rightarrow> error + string" where
  "node_field_name (FieldObject a n args ds ss) = Inr n"
| "node_field_name (InlineFragmentObject t ds ss) = Inl AttributeError"
| "node_field_name (OperationDefinitionObject oper n ds ss) = Inl AttributeError"
| "node_field_name (FragmentSpreadObject n ds) = Inr n"

definition only_definition :: "store \<Rightarrow> nat list \<Rightarrow> error + nat" where
  "only_definition h defs = (case defs of [a] \<Rightarrow> Inr a | _ \<Rightarrow> Inl GraphQLError)"

definition filtered_store :: store where
  "filtered_store =
     [OperationDefinitionObject ''query'' None [] (Some [1]),
      FieldObject None ''Animal'' (Some []) [] (Some [2, 3]),
      FieldObject None ''uuid'' (Some []) [old_filter] None,
      FieldObject None ''name'' (Some []) [output_animal] None]"

definition paged_store :: store where
  "paged_store =
     filtered_store @
       [FieldObject None ''uuid'' (Some [])
          [make_binary_filter_directive_node ''<'' ''new''] None,
        FieldObject None ''Animal'' (Some []) [] (Some [4, 3]),
        OperationDefinitionObject ''query'' None [] (Some [5])]"

definition split_store :: store where
  "split_store =
     filtered_store @
       [FieldObject None ''uuid'' (Some [])
          [make_binary_filter_directive_node ''<'' ''__paged_param_0''] None,
        FieldObject None ''Animal'' (Some []) [] (Some [4, 3]),
        OperationDefinitionObject ''query'' None [] (Some [5]),
        FieldObject None ''uuid'' (Some [])
          [old_filter, make_binary_filter_directive_node ''>='' ''__paged_param_0''] None,
        FieldObject None ''Animal'' (Some []) [] (Some [7, 3]),
        OperationDefinitionObject ''query'' None [] (Some [8])]"

section \<open>Theorems\<close>

subsection \<open>Rounding to a float\<close>

text \<open>
  The spacing is positive and a power of two times the least positive float; the search
  stops at the largest exponent whose binade starts at or below the value.
\<close>

lemma smallest_float_pos: "0 < smallest_float"
  by (simp add: smallest_float_def)

lemma spacing_from_pos: "0 < spacing_from k a"
  by (induction k) (simp_all add: smallest_float_pos)

lemma spacing_pos: "0 < spacing x"
  by (simp add: spacing_def spacing_from_pos)

lemma spacing_from_form:
  "\<exists>j\<le>k. spacing_from k a = 2 ^ j * smallest_float \<and>
          (j = 0 \<or> 2 ^ (j + 52) * smallest_float \<le> a)"
proof (induction k)
  case 0
  show ?case by simp
next
  case (Suc k)
  show ?case
  proof (cases "2 ^ (Suc k + 52) * smallest_float \<le> a")
    case True
    then show ?thesis by (intro exI [of _ "Suc k"]) simp
  next
    case False
    from Suc obtain j where "j \<le> k" "spacing_from k a = 2 ^ j * smallest_float"
      "j = 0 \<or> 2 ^ (j + 52) * smallest_float \<le> a" by blast
    with False show ?thesis by (intro exI [of _ j]) simp
  qed
qed

lemma spacing_from_ge:
  assumes "j \<le> k" and "2 ^ (j + 52) * smallest_float \<le> a"
  shows "\<exists>i. j \<le> i \<and> i \<le> k \<and> spacing_from k a = 2 ^ i * smallest_float \<and>
             2 ^ (i + 52) * smallest_float \<le> a"
  using assms
proof (induction k)
  case 0
  then show ?case by simp
next
  case (Suc k)
  show ?case
  proof (cases "2 ^ (Suc k + 52) * smallest_float \<le> a")
    case True
    with Suc.prems show ?thesis by (intro exI [of _ "Suc k"]) simp
  next
    case False
    with Suc.prems have "j \<noteq> Suc k" by auto
    with Suc.prems have "j \<le> k" by simp
    from Suc.IH [OF this Suc.prems(2)] obtain i where "j \<le> i" "i \<le> k"
      "spacing_from k a = 2 ^ i * smallest_float" "2 ^ (i + 52) * smallest_float \<le> a"
      by blast
    with False show ?thesis by (intro exI [of _ i]) simp
  qed
qed

text \<open>Rounding to an integer stays within a half of the value and fixes the integers.\<close>

lemma round_half_even_of_int: "round_half_even (of_int n) = n"
  by (simp add: round_half_even_def)

lemma round_half_even_ge_floor: "\<lfloor>x\<rfloor> \<le> round_half_even x"
  by (simp add: round_half_even_def Let_def)

lemma round_half_even_le: "of_int (round_half_even x) \<le> x + 1 / 2"
  unfolding round_half_even_def Let_def by (auto; linarith)

lemma round_half_even_nonneg: "0 \<le> x \<Longrightarrow> 0 \<le> round_half_even x"
  using round_half_even_ge_floor [of x] by (simp add: order_trans [of 0 "\<lfloor>x\<rfloor>"])

lemma round_half_even_below:
  assumes "x < of_int n - 1 / 2"
  shows "round_half_even x \<le> n - 1"
proof -
  have "of_int \<lfloor>x\<rfloor> \<le> x" by simp
  show ?thesis
  proof (cases "x - of_int \<lfloor>x\<rfloor> < 1 / 2")
    case True
    have "\<lfloor>x\<rfloor> < n" using assms by (simp add: floor_less_iff)
    with True show ?thesis by (simp add: round_half_even_def Let_def)
  next
    case False
    then have "of_int \<lfloor>x\<rfloor> + 1 / 2 \<le> x" by simp
    with assms have "(of_int \<lfloor>x\<rfloor> :: real) < of_int n - 1" by linarith
    then have "(of_int \<lfloor>x\<rfloor> :: real) < of_int (n - 1)" by simp
    then have "\<lfloor>x\<rfloor> < n - 1" by (simp only: of_int_less_iff)
    then show ?thesis by (simp add: round_half_even_def Let_def)
  qed
qed

text \<open>
  A multiple of a power of two with a significand below \<open>2^53\<close> is a float, and rounding
  returns it: the integers below \<open>2^53\<close> are floats.
\<close>

lemma round_to_float_dyadic:
  assumes m: "\<bar>m\<bar> < 2 ^ 53" and k: "k \<le> 1074"
  shows "round_to_float (of_int m / 2 ^ k) = Finite (of_int m / 2 ^ k)"
proof -
  define E :: nat where "E = 1074"
  have sf: "smallest_float = 1 / 2 ^ E" by (simp add: smallest_float_def E_def)
  define x :: real where "x = of_int m / 2 ^ k"
  obtain j where j: "spacing x = 2 ^ j * smallest_float"
      "j = 0 \<or> 2 ^ (j + 52) * smallest_float \<le> \<bar>x\<bar>"
    using spacing_from_form [of 2045 "\<bar>x\<bar>"] unfolding spacing_def by blast
  have absx: "\<bar>x\<bar> = of_int \<bar>m\<bar> / 2 ^ k" by (simp add: x_def)
  have "(of_int \<bar>m\<bar> :: real) < of_int (2 ^ 53)" using m by (simp only: of_int_less_iff)
  then have mlt: "(of_int \<bar>m\<bar> :: real) < 2 ^ 53" by simp
  have kE: "k \<le> E" using k by (simp add: E_def)
  have jk: "j + k \<le> E"
  proof (cases "j = 0")
    case True
    then show ?thesis using kE by simp
  next
    case False
    with j have "2 ^ (j + 52) / 2 ^ E \<le> of_int \<bar>m\<bar> / (2 ^ k :: real)"
      by (simp add: sf absx)
    then have "(2 ^ (j + 52) :: real) * 2 ^ k \<le> of_int \<bar>m\<bar> * 2 ^ E"
      by (simp add: field_simps)
    also have "\<dots> < 2 ^ 53 * 2 ^ E" using mlt by simp
    finally have "(2 :: real) ^ (j + 52 + k) < 2 ^ (53 + E)" by (simp add: power_add)
    then have "j + 52 + k < 53 + E" by (simp only: power_strict_increasing_iff) 
    then show ?thesis by simp
  qed
  then obtain d where d: "E = j + k + d" using le_Suc_ex by blast
  have q: "x / spacing x = of_int (m * 2 ^ d)"
    unfolding j(1) by (simp add: sf x_def d power_add)
  have rq: "round_half_even (x / spacing x) = m * 2 ^ d"
    by (simp only: q round_half_even_of_int)
  have "of_int (round_half_even (x / spacing x)) * spacing x = of_int (m * 2 ^ d) * spacing x"
    by (simp only: rq)
  also have "\<dots> = of_int (m * 2 ^ d) * (2 ^ j * smallest_float)"
    by (simp only: j(1))
  also have "\<dots> = x"
    by (simp add: sf x_def d power_add)
  finally have "of_int (round_half_even (x / spacing x)) * spacing x = x" .
  moreover have "\<bar>x\<bar> \<le> of_int \<bar>m\<bar>"
    unfolding absx by (simp add: divide_le_eq mult_le_cancel_left1)
  then have "\<bar>x\<bar> < 2 ^ 53" using mlt by linarith
  then have "\<not> overflow_bound \<le> x" "\<not> x \<le> - overflow_bound"
    by (simp_all add: overflow_bound_def)
  ultimately show ?thesis by (simp add: round_to_float_def x_def [symmetric])
qed

lemma round_to_float_of_int:
  "\<bar>m\<bar> < 2 ^ 53 \<Longrightarrow> round_to_float (of_int m) = Finite (of_int m)"
  using round_to_float_dyadic [of m 0] by simp

text \<open>
  Below the overflow bound a value that is not negative rounds to a finite float that
  is not negative and at most the largest float, within half the largest spacing of
  the value, and to at least \<open>1\<close> when the value is at least \<open>1\<close>.
\<close>

lemma round_to_float_range:
  assumes x0: "0 \<le> x" and xb: "x < overflow_bound"
  shows "\<exists>r. round_to_float x = Finite r \<and> 0 \<le> r \<and> r \<le> max_float \<and>
             r \<le> x + 2 ^ 970 \<and> (1 \<le> x \<longrightarrow> 1 \<le> r)"
proof -
  define r where "r = of_int (round_half_even (x / spacing x)) * spacing x"
  have ob: "0 < overflow_bound" by (simp add: overflow_bound_def)
  have rt: "round_to_float x = Finite r"
    using x0 xb ob by (simp add: round_to_float_def r_def)
  have sp: "0 < spacing x" by (rule spacing_pos)
  have y0: "0 \<le> x / spacing x" using x0 sp by simp
  have r0: "0 \<le> r"
    unfolding r_def using round_half_even_nonneg [OF y0] sp by simp
  have absx: "\<bar>x\<bar> = x" using x0 by simp
  have rle: "r \<le> x + 2 ^ 970"
  proof -
    obtain j where j: "j \<le> 2045" "spacing x = 2 ^ j * smallest_float"
      using spacing_from_form [of 2045 "\<bar>x\<bar>"] unfolding spacing_def by blast
    have "(2 :: real) ^ j \<le> 2 ^ 2045" using j(1) by (intro power_increasing) simp_all
    then have "spacing x \<le> 2 ^ 2045 * smallest_float"
      unfolding j(2) using smallest_float_pos by (simp only: mult_le_cancel_right) simp
    then have sle: "spacing x \<le> 2 ^ 971" by (simp add: smallest_float_def)
    have "r \<le> (x / spacing x + 1 / 2) * spacing x"
      unfolding r_def using round_half_even_le [of "x / spacing x"] sp
      by (simp only: mult_le_cancel_right) simp
    also have "\<dots> = x + spacing x / 2" using sp by (simp add: field_simps)
    also have "\<dots> \<le> x + 2 ^ 970" using sle by simp
    finally show ?thesis .
  qed
  have rmax: "r \<le> max_float"
  proof (cases "2 ^ 1023 \<le> x")
    case True
    then have "2 ^ (2045 + 52) * smallest_float \<le> x" by (simp add: smallest_float_def)
    from spacing_from_ge [OF order_refl this]
    have s: "spacing x = 2 ^ 971" by (auto simp: spacing_def absx smallest_float_def)
    have "x / 2 ^ 971 < of_int (2 ^ 53) - 1 / 2"
      using xb by (simp add: overflow_bound_def field_simps)
    from round_half_even_below [OF this]
    have "round_half_even (x / 2 ^ 971) \<le> 2 ^ 53 - 1" .
    then have "(of_int (round_half_even (x / 2 ^ 971)) :: real) \<le> of_int (2 ^ 53 - 1)"
      by (simp only: of_int_le_iff)
    then have "of_int (round_half_even (x / 2 ^ 971)) * (2 ^ 971 :: real) \<le> of_int (2 ^ 53 - 1) * 2 ^ 971"
      by (simp only: mult_le_cancel_right) simp
    then show ?thesis by (simp add: r_def s max_float_def)
  next
    case False
    with rle have "r \<le> 2 ^ 1023 + 2 ^ 970" by simp
    also have "\<dots> \<le> max_float" by (simp add: max_float_def)
    finally show ?thesis .
  qed
  have r1: "1 \<le> r" if x1: "1 \<le> x"
  proof -
    have "2 ^ (1022 + 52) * smallest_float \<le> x" using x1 by (simp add: smallest_float_def)
    from spacing_from_ge [of 1022 2045, OF _ this]
    obtain i where i: "1022 \<le> i" "i \<le> 2045" "spacing x = 2 ^ i * smallest_float"
        "2 ^ (i + 52) * smallest_float \<le> x"
      by (auto simp: spacing_def absx)
    define E :: nat where "E = 1074"
    have sf: "smallest_float = 1 / 2 ^ E" by (simp add: smallest_float_def E_def)
    show ?thesis
    proof (cases "i \<le> E")
      case True
      then obtain d where d: "E = i + d" using le_Suc_ex by blast
      have spd: "spacing x = 1 / 2 ^ d" by (simp add: i(3) sf d power_add)
      have "of_int (2 ^ d) \<le> x / spacing x" using x1 by (simp add: spd)
      then have "2 ^ d \<le> \<lfloor>x / spacing x\<rfloor>" by (simp only: le_floor_iff)
      with round_half_even_ge_floor [of "x / spacing x"]
      have "2 ^ d \<le> round_half_even (x / spacing x)" by linarith
      then have "(of_int (2 ^ d) :: real) \<le> of_int (round_half_even (x / spacing x))"
        by (simp only: of_int_le_iff)
      then have "(2 ^ d :: real) \<le> of_int (round_half_even (x / spacing x))" by simp
      then show ?thesis by (simp add: r_def spd field_simps)
    next
      case False
      then obtain d where d: "i = E + d" using le_Suc_ex [of E i] by auto
      have spd: "spacing x = 2 ^ d" by (simp add: i(3) sf d power_add)
      have "(1 :: real) \<le> 2 ^ d" by simp
      have "of_int 1 \<le> x / spacing x" using x1 i(4) sp
        by (simp add: spd sf d power_add field_simps)
      then have "1 \<le> \<lfloor>x / spacing x\<rfloor>" by (simp only: le_floor_iff)
      with round_half_even_ge_floor [of "x / spacing x"]
      have "1 \<le> round_half_even (x / spacing x)" by linarith
      then have "(of_int 1 :: real) \<le> of_int (round_half_even (x / spacing x))"
        by (simp only: of_int_le_iff)
      then have "(1 :: real) \<le> of_int (round_half_even (x / spacing x))" by simp
      then have "1 * 1 \<le> of_int (round_half_even (x / spacing x)) * (2 ^ d :: real)"
        by (intro mult_mono) simp_all
      then show ?thesis by (simp add: r_def spd)
    qed
  qed
  from rt r0 rmax rle r1 show ?thesis by blast
qed

text \<open>Within one binade the search returns the spacing of that binade.\<close>

lemma spacing_from_eq:
  assumes "j \<le> k" and "2 ^ (j + 52) * smallest_float \<le> a"
    and "a < 2 ^ (j + 53) * smallest_float"
  shows "spacing_from k a = 2 ^ j * smallest_float"
  using assms(1)
proof (induction k)
  case 0
  then show ?case by simp
next
  case (Suc k)
  show ?case
  proof (cases "j = Suc k")
    case True
    with assms(2) show ?thesis by simp
  next
    case False
    with Suc.prems have jk: "j \<le> k" by simp
    then have "(2 :: real) ^ (j + 53) \<le> 2 ^ (Suc k + 52)"
      by (intro power_increasing) simp_all
    then have "2 ^ (j + 53) * smallest_float \<le> 2 ^ (Suc k + 52) * smallest_float"
      using smallest_float_pos by (simp only: mult_le_cancel_right) simp
    with assms(3) have "\<not> 2 ^ (Suc k + 52) * smallest_float \<le> a" by linarith
    with Suc.IH [OF jk] show ?thesis by simp
  qed
qed

lemma spacing_two_to_four:
  assumes "2 \<le> x" and "x < 4"
  shows "spacing x = 1 / 2 ^ 51"
proof -
  have "spacing_from 2045 \<bar>x\<bar> = 2 ^ 1023 * smallest_float"
    using assms by (intro spacing_from_eq) (simp_all add: smallest_float_def)
  then show ?thesis by (simp add: spacing_def smallest_float_def)
qed

subsection \<open>Boundary estimator\<close>

text \<open>
  A page size of at least \<open>1\<close> converts to a float of at least \<open>1\<close>, or is too large. The
  floor division of a finite dividend that is not negative by such a divisor returns a
  finite quotient that is not negative; a NaN or infinite dividend gives a NaN.
\<close>

lemma max_float_below: "max_float + 1 < overflow_bound"
  by (simp add: max_float_def overflow_bound_def)

lemma float_of_int_overflow:
  "overflow_bound \<le> of_int p \<Longrightarrow> float_of_int p = Inl OverflowError"
  by (simp add: float_of_int_def round_to_float_def)

lemma float_of_int_range:
  assumes "1 \<le> p" and "of_int p < overflow_bound"
  shows "\<exists>w. float_of_int p = Inr (Finite w) \<and> round_to_float (of_int p) = Finite w \<and>
             1 \<le> w \<and> w \<le> max_float \<and> w \<le> of_int p + 2 ^ 970"
proof -
  have "(1 :: real) \<le> of_int p" using assms(1) by simp
  with round_to_float_range [of "of_int p"] assms(2)
  obtain w where "round_to_float (of_int p) = Finite w" "1 \<le> w" "w \<le> max_float"
      "w \<le> of_int p + 2 ^ 970"
    by auto
  then show ?thesis by (simp add: float_of_int_def)
qed

lemma float_floor_div_nonneg:
  assumes t0: "0 \<le> t" and tm: "t \<le> max_float" and w1: "1 \<le> w"
  shows "\<exists>r. float_floor_div (Finite t) (Finite w) = Inr (Finite r) \<and> 0 \<le> r"
proof -
  have mb: "max_float < overflow_bound" using max_float_below by simp
  define m where "m = t - w * of_int \<lfloor>t / w\<rfloor>"
  have tw: "0 \<le> t / w" using t0 w1 by simp
  have fm: "float_fmod (Finite t) (Finite w) = Finite m"
    using w1 tw by (simp add: m_def)
  have w0: "0 < w" using w1 by simp
  have "of_int \<lfloor>t / w\<rfloor> \<le> t / w" by (rule of_int_floor_le)
  then have "of_int \<lfloor>t / w\<rfloor> * w \<le> t" by (simp only: pos_le_divide_eq [OF w0])
  then have m0: "0 \<le> m" by (simp add: m_def mult.commute)
  have "0 \<le> \<lfloor>t / w\<rfloor>" using tw by simp
  then have "0 \<le> w * of_int \<lfloor>t / w\<rfloor>" using w1 by simp
  then have mt: "m \<le> t" by (simp add: m_def)
  from round_to_float_range [of "t - m"] m0 mt tm mb
  obtain u where u: "round_to_float (t - m) = Finite u" "0 \<le> u" "u \<le> max_float"
    by auto
  have "u / w \<le> u" using u(2) w1 by (simp add: divide_le_eq mult_le_cancel_left1)
  moreover have "0 \<le> u / w" using u(2) w1 by simp
  ultimately obtain d where d: "round_to_float (u / w) = Finite d" "0 \<le> d" "d \<le> max_float"
    using round_to_float_range [of "u / w"] u(3) mb by auto
  have su: "float_sub (Finite t) (Finite m) = Finite u"
    using u(1) by (simp add: float_sub_def)
  have dv: "float_div (Finite u) (Finite w) = Finite d"
    using d(1) w1 by simp
  have "d - of_int \<lfloor>d\<rfloor> < 1" by linarith
  also have "1 < overflow_bound" by (simp add: overflow_bound_def)
  finally have "d - of_int \<lfloor>d\<rfloor> < overflow_bound" .
  moreover have "0 \<le> d - of_int \<lfloor>d\<rfloor>" by simp
  ultimately obtain e where e: "round_to_float (d - of_int \<lfloor>d\<rfloor>) = Finite e"
    using round_to_float_range [of "d - of_int \<lfloor>d\<rfloor>"] by auto
  have fl0: "(0 :: real) \<le> of_int \<lfloor>d\<rfloor>" using d(2) by simp
  have "of_int \<lfloor>d\<rfloor> \<le> d" by simp
  with d(3) max_float_below have "of_int \<lfloor>d\<rfloor> + 1 < overflow_bound" by linarith
  with round_to_float_range [of "of_int \<lfloor>d\<rfloor> + 1"] fl0
  obtain f where f: "round_to_float (of_int \<lfloor>d\<rfloor> + 1) = Finite f" "0 \<le> f" by auto
  have se: "float_sub (Finite d) (float_floor (Finite d)) = Finite e"
    using e by (simp add: float_sub_def)
  have fa: "float_add (float_floor (Finite d)) (Finite 1) = Finite f"
    using f(1) by simp
  have ff: "float_floor (Finite d) = Finite (of_int \<lfloor>d\<rfloor>)" by simp
  have "float_floor_div (Finite t) (Finite w) =
      Inr (if d = 0 then Finite 0 else if 1 / 2 < e then Finite f else Finite (of_int \<lfloor>d\<rfloor>))"
    using w1 m0
    by (simp add: float_floor_div_def Let_def fm su dv se fa
        del: float_fmod.simps float_div.simps float_floor.simps float_add.simps)
      (simp add: ff)
  then show ?thesis using fl0 f(2) by simp
qed

lemma float_floor_div_NaN:
  "w \<noteq> 0 \<Longrightarrow> float_floor_div NaN (Finite w) = Inr NaN"
  by (simp add: float_floor_div_def Let_def float_sub_def)

lemma float_floor_div_PosInf:
  "w \<noteq> 0 \<Longrightarrow> float_floor_div PosInf (Finite w) = Inr NaN"
  by (simp add: float_floor_div_def Let_def float_sub_def)

text \<open>The outcomes of the estimator, one by one.\<close>

lemma estimate_number_of_pages_small_page_size:
  "p < 1 \<Longrightarrow> estimate_number_of_pages q c p = Inl ValueError"
  by (simp add: estimate_number_of_pages_def)

lemma estimate_number_of_pages_negative:
  "1 \<le> p \<Longrightarrow> float_less c (Finite 0) \<Longrightarrow> estimate_number_of_pages q c p = Inl AssertionError"
  by (simp add: estimate_number_of_pages_def)

lemma estimate_number_of_pages_overflow:
  "1 \<le> p \<Longrightarrow> \<not> float_less c (Finite 0) \<Longrightarrow> overflow_bound \<le> of_int p \<Longrightarrow>
   estimate_number_of_pages q c p = Inl OverflowError"
  by (simp add: estimate_number_of_pages_def float_of_int_overflow)

lemma estimate_number_of_pages_not_finite:
  assumes p: "1 \<le> p" and c: "\<not> float_less c (Finite 0)" and pb: "of_int p < overflow_bound"
    and nf: "\<not> is_finite (float_add c (round_to_float (of_int p)))"
  shows "estimate_number_of_pages q c p = Inl ValueError"
proof -
  from float_of_int_range [OF p pb] obtain w where
    w: "float_of_int p = Inr (Finite w)" "round_to_float (of_int p) = Finite w" "1 \<le> w"
    by blast
  have w0: "w \<noteq> 0" using w(3) by simp
  from nf have "float_add c (Finite w) = NaN \<or> float_add c (Finite w) = PosInf \<or>
      float_add c (Finite w) = NegInf"
    unfolding w(2) by (cases "float_add c (Finite w)") simp_all
  moreover have "float_add c (Finite w) \<noteq> NegInf"
  proof (cases c)
    case (Finite r)
    with c have r0: "0 \<le> r" by simp
    have "\<not> r + w \<le> - overflow_bound"
      using r0 w(3) by (simp add: overflow_bound_def)
    then show ?thesis using Finite by (simp add: round_to_float_def)
  qed (use c in simp_all)
  ultimately show ?thesis
    using p c w0
    by (auto simp: estimate_number_of_pages_def w(1) float_sub_def
        float_floor_div_NaN float_floor_div_PosInf)
qed

lemma estimate_number_of_pages_finite:
  assumes p: "1 \<le> p" and c: "\<not> float_less c (Finite 0)" and pb: "of_int p < overflow_bound"
    and fin: "is_finite (float_add c (round_to_float (of_int p)))"
  shows "\<exists>n. estimate_number_of_pages q c p = Inr n \<and> 1 \<le> n"
proof -
  have mb: "max_float < overflow_bound" using max_float_below by simp
  from float_of_int_range [OF p pb] obtain w where
    w: "float_of_int p = Inr (Finite w)" "round_to_float (of_int p) = Finite w" "1 \<le> w"
    by blast
  from fin obtain r where cr: "c = Finite r"
    unfolding w(2) by (cases c) simp_all
  with c have r0: "0 \<le> r" by simp
  from fin have "r + w < overflow_bound"
    unfolding w(2) cr by (auto simp: round_to_float_def split: if_splits)
  with round_to_float_range [of "r + w"] r0 w(3)
  obtain s where s: "round_to_float (r + w) = Finite s" "1 \<le> s" "s \<le> max_float"
    by auto
  from round_to_float_range [of "s - 1"] s(2,3) mb
  obtain t where t: "round_to_float (s - 1) = Finite t" "0 \<le> t" "t \<le> max_float"
    by auto
  from float_floor_div_nonneg [OF t(2,3) w(3)]
  obtain d where d: "float_floor_div (Finite t) (Finite w) = Inr (Finite d)" "0 \<le> d"
    by blast
  define n where "n = \<lfloor>d\<rfloor>"
  have n: "int_of_float (Finite d) = Inr n" using d(2) by (simp add: n_def)
  have "estimate_number_of_pages q c p = Inr (if n = 0 then 1 else n)"
    using p r0
    by (simp add: estimate_number_of_pages_def cr w(1) float_sub_def s(1) t(1) d(1) n
        del: int_of_float.simps)
  moreover have "0 \<le> n" using d(2) by (simp add: n_def)
  then have "1 \<le> (if n = 0 then 1 else n)" by simp
  ultimately show ?thesis by blast
qed

lemma float_add_finite_small:
  assumes p: "1 \<le> p" and p2: "p \<le> 2 ^ 1022" and r0: "0 \<le> r" and r2: "r \<le> 2 ^ 1022"
  shows "of_int p < overflow_bound \<and> is_finite (float_add (Finite r) (round_to_float (of_int p)))"
proof -
  have "(of_int p :: real) \<le> of_int (2 ^ 1022)" using p2 by (simp only: of_int_le_iff)
  then have pr: "(of_int p :: real) \<le> 2 ^ 1022" by simp
  then have pb: "of_int p < overflow_bound" by (simp add: overflow_bound_def)
  from float_of_int_range [OF p pb] obtain w where
    w: "round_to_float (of_int p) = Finite w" "1 \<le> w" "w \<le> of_int p + 2 ^ 970"
    by blast
  have "r + w \<le> 2 ^ 1022 + (2 ^ 1022 + 2 ^ 970)" using r2 w(3) pr by linarith
  also have "\<dots> < overflow_bound" by (simp add: overflow_bound_def)
  finally have "r + w < overflow_bound" .
  with round_to_float_range [of "r + w"] r0 w(2)
  obtain s where "round_to_float (r + w) = Finite s" by auto
  then show ?thesis using pb by (simp add: w(1))
qed

text \<open>
  On whole numbers below \<open>2^53\<close> every operation of the estimator is exact: the floor
  division is integer division, and the estimate is the ceiling of the quotient.
\<close>

lemma float_of_int_exact:
  "\<bar>n\<bar> < 2 ^ 53 \<Longrightarrow> float_of_int n = Inr (Finite (of_int n))"
  by (simp add: float_of_int_def round_to_float_of_int)

lemma float_floor_div_of_int:
  assumes a0: "0 \<le> a" and a53: "a < 2 ^ 53" and p1: "1 \<le> p"
  shows "float_floor_div (Finite (of_int a)) (Finite (of_int p)) = Inr (Finite (of_int (a div p)))"
proof -
  have p0: "(0 :: real) < of_int p" using p1 by simp
  have q0: "0 \<le> a div p" using a0 p1 by (simp add: pos_imp_zdiv_nonneg_iff)
  have "p * (a div p) + a mod p = a" by simp
  moreover have "0 \<le> a mod p" using p1 by simp
  ultimately have qa: "p * (a div p) \<le> a" by linarith
  have "a div p \<le> p * (a div p)" using q0 p1 by (simp add: mult_le_cancel_right1)
  with qa have "a div p \<le> a" by linarith
  with q0 a53 have q53: "\<bar>a div p\<bar> < 2 ^ 53" by simp
  have "0 \<le> p * (a div p)" using q0 p1 by simp
  with qa a53 have pq53: "\<bar>p * (a div p)\<bar> < 2 ^ 53" by simp
  have fl: "\<lfloor>(of_int a :: real) / of_int p\<rfloor> = a div p" by (rule floor_divide_of_int_eq)
  have ge: "(0 :: real) \<le> of_int a / of_int p" using a0 p1 by simp
  have "(of_int a :: real) - of_int p * of_int (a div p) = of_int (a mod p)"
    by (simp add: minus_mult_div_eq_mod [symmetric])
  then have fm: "float_fmod (Finite (of_int a)) (Finite (of_int p)) = Finite (of_int (a mod p))"
    using p0 ge by (simp add: fl)
  have "(of_int a :: real) + - of_int (a mod p) = of_int (p * (a div p))"
    by (simp add: minus_mod_eq_mult_div [symmetric])
  then have su: "float_sub (Finite (of_int a)) (Finite (of_int (a mod p))) =
      Finite (of_int (p * (a div p)))"
    using round_to_float_of_int [OF pq53] by (simp add: float_sub_def)
  have "(of_int (p * (a div p)) :: real) / of_int p = of_int (a div p)"
    using p0 by simp
  then have dv: "float_div (Finite (of_int (p * (a div p)))) (Finite (of_int p)) =
      Finite (of_int (a div p))"
    using round_to_float_of_int [OF q53] p0 by simp
  have m0: "\<not> a mod p < 0" using p1 by (simp add: not_less)
  have z: "round_to_float 0 = Finite 0" using round_to_float_of_int [of 0] by simp
  have se: "float_sub (Finite (of_int (a div p))) (float_floor (Finite (of_int (a div p)))) =
      Finite 0"
    by (simp add: float_sub_def z)
  show ?thesis
    using p1
    by (simp add: float_floor_div_def Let_def fm su dv se m0
        del: float_fmod.simps float_div.simps float_floor.simps float_add.simps of_int_mult)
      simp
qed

lemma ceiling_as_div:
  assumes k: "0 \<le> k" and p: "1 \<le> p"
  shows "(k + p - 1) div p = \<lceil>(of_int k :: real) / of_int p\<rceil>"
proof -
  define n where "n = \<lceil>(of_int k :: real) / of_int p\<rceil>"
  have p0: "(0::real) < of_int p" using p by simp
  have "(of_int k :: real) / of_int p \<le> of_int n" unfolding n_def by (rule le_of_int_ceiling)
  then have "(of_int k :: real) \<le> of_int n * of_int p" using p0 by (simp add: pos_divide_le_eq)
  then have up: "k \<le> n * p" by (metis of_int_le_iff of_int_mult)
  have "of_int n - 1 < (of_int k :: real) / of_int p" unfolding n_def by linarith
  then have "(of_int n - 1) * of_int p < (of_int k :: real)" using p0 by (simp add: pos_less_divide_eq)
  then have "(of_int ((n - 1) * p) :: real) < of_int k" by simp
  then have "(n - 1) * p < k" by (simp only: of_int_less_iff)
  then have lo: "(n - 1) * p + 1 \<le> k" by simp
  have lo': "n * p \<le> k + p - 1" using lo by (simp add: algebra_simps)
  have up': "k + p - 1 < (n + 1) * p" using up p by (simp add: algebra_simps)
  have "(of_int (n * p) :: real) \<le> of_int (k + p - 1)" using lo' by (simp only: of_int_le_iff)
  then have a: "(of_int n :: real) \<le> of_int (k + p - 1) / of_int p"
    using p0 by (simp add: pos_le_divide_eq)
  have "(of_int (k + p - 1) :: real) < of_int ((n + 1) * p)" using up' by (simp only: of_int_less_iff)
  then have b: "of_int (k + p - 1) / of_int p < (of_int n :: real) + 1"
    using p0 by (simp add: pos_divide_less_eq)
  from a b have "\<lfloor>(of_int (k + p - 1) :: real) / of_int p\<rfloor> = n"
    by (intro floor_unique) simp_all
  then show ?thesis unfolding n_def [symmetric] by (simp only: floor_divide_of_int_eq)
qed

lemma estimate_number_of_pages_whole:
  assumes k: "0 \<le> k" and p: "1 \<le> p" and kp: "k + p < 2 ^ 53"
  shows "estimate_number_of_pages q (Finite (of_int k)) p =
           Inr (max 1 \<lceil>(of_int k :: real) / of_int p\<rceil>)"
proof -
  have p53: "\<bar>p\<bar> < 2 ^ 53" and s53: "\<bar>k + p\<bar> < 2 ^ 53" and a53: "\<bar>k + p - 1\<bar> < 2 ^ 53"
    using k p kp by simp_all
  have w: "float_of_int p = Inr (Finite (of_int p))" by (rule float_of_int_exact [OF p53])
  have ad: "float_add (Finite (of_int k)) (Finite (of_int p)) = Finite (of_int (k + p))"
    using round_to_float_of_int [OF s53] by simp
  have "round_to_float (of_int (k + p) + - 1) = round_to_float (of_int (k + p - 1))"
    by simp
  then have su: "float_sub (Finite (of_int (k + p))) (Finite 1) = Finite (of_int (k + p - 1))"
    unfolding float_sub_def float_neg.simps float_add.simps
    by (simp only: round_to_float_of_int [OF a53])
  have fd: "float_floor_div (Finite (of_int (k + p - 1))) (Finite (of_int p)) =
      Inr (Finite (of_int ((k + p - 1) div p)))"
    using k p kp by (intro float_floor_div_of_int) simp_all
  define n where "n = (k + p - 1) div p"
  have n0: "0 \<le> n" unfolding n_def using k p by (simp add: pos_imp_zdiv_nonneg_iff)
  have nc: "n = \<lceil>(of_int k :: real) / of_int p\<rceil>"
    unfolding n_def by (rule ceiling_as_div [OF k p])
  have "estimate_number_of_pages q (Finite (of_int k)) p = Inr (if n = 0 then 1 else n)"
    using k p n0
    by (simp add: estimate_number_of_pages_def w ad su fd n_def [symmetric]
        del: float_add.simps of_int_add of_int_diff)
  also have "\<dots> = Inr (max 1 n)" using n0 by (simp add: max_def)
  finally show ?thesis by (simp only: nc)
qed

text \<open>
  The estimator on some cardinalities. At cardinality \<open>2 - 2^-52\<close>, the float next below
  \<open>2\<close>, and page size \<open>1\<close> the sum \<open>3 - 2^-52\<close> lies halfway between two floats and rounds
  to \<open>3\<close>, so the estimate is \<open>2\<close>, where the floor of the exact quotient is \<open>1\<close>.
\<close>

lemma round_to_float_samples:
  "round_to_float 0 = Finite 0"
  "round_to_float 1 = Finite 1"
  "round_to_float 2 = Finite 2"
  "round_to_float (3 / 2) = Finite (3 / 2)"
  "round_to_float (5 / 2) = Finite (5 / 2)"
  using round_to_float_dyadic [of 0 0] round_to_float_dyadic [of 1 0]
    round_to_float_dyadic [of 2 0] round_to_float_dyadic [of 3 1] round_to_float_dyadic [of 5 1]
  by simp_all

lemma float_of_int_one: "float_of_int 1 = Inr (Finite 1)"
  using float_of_int_exact [of 1] by simp

lemma estimate_fraction: "estimate_number_of_pages () (Finite (3 / 2)) 1 = Inr 1"
  by (simp add: estimate_number_of_pages_def float_of_int_one float_sub_def
      float_floor_div_def Let_def round_to_float_samples)

lemma round_to_float_eq:
  assumes "\<not> overflow_bound \<le> x" and "\<not> x \<le> - overflow_bound"
    and "spacing x = s" and "round_half_even (x / s) = n"
  shows "round_to_float x = Finite (of_int n * s)"
  using assms by (simp add: round_to_float_def)

lemma round_to_float_tie: "round_to_float (3 - 1 / 2 ^ 52) = Finite 3"
proof -
  have "round_to_float (3 - 1 / 2 ^ 52) = Finite (of_int 6755399441055744 * (1 / 2 ^ 51))"
  proof (rule round_to_float_eq)
    show "spacing (3 - 1 / 2 ^ 52) = 1 / 2 ^ 51"
      by (rule spacing_two_to_four) simp_all
    show "round_half_even ((3 - 1 / 2 ^ 52) / (1 / 2 ^ 51)) = 6755399441055744"
      by (simp add: round_half_even_def Let_def)
  qed (simp_all add: overflow_bound_def)
  then show ?thesis by simp
qed

lemma estimate_number_of_pages_rounds:
  "estimate_number_of_pages () (Finite (2 - 1 / 2 ^ 52)) 1 = Inr 2"
proof -
  have "float_add (Finite (2 - 1 / 2 ^ 52)) (Finite 1) = Finite 3"
    using round_to_float_tie by simp
  then show ?thesis
    by (simp add: estimate_number_of_pages_def float_of_int_one float_sub_def
        float_floor_div_def Let_def round_to_float_samples del: float_add.simps)
      (simp add: round_to_float_samples)
qed

text \<open>
  Claim C3. The claim: for every real cardinality \<open>c \<ge> 0\<close> and page size \<open>p \<ge> 1\<close> the
  estimator returns \<open>max 1 \<lceil>c / p\<rceil>\<close>, and \<open>1000\<close> for cardinality \<open>1000\<close> and page size
  \<open>1\<close>. The code computes the floor of \<open>(c + p - 1) / p\<close> in float arithmetic, which is
  the ceiling when \<open>c\<close> is a whole number and \<open>c + p\<close> is below \<open>2^53\<close>
  (\<open>estimate_number_of_pages_whole\<close>) and not otherwise: at cardinality \<open>3/2\<close> (a float
  that the additions and the division leave exact) and page size \<open>1\<close> it returns \<open>1\<close>,
  where the claim, and the comment in the code that promises rounding up, ask for
  \<open>2\<close>. The scenario of the claim holds.
\<close>

theorem estimate_number_of_pages_fraction:
  "estimate_number_of_pages () (Finite (3 / 2)) 1 = Inr 1 \<and>
   max 1 \<lceil>(3 / 2 :: real) / of_int 1\<rceil> = 2 \<and>
   estimate_number_of_pages () (Finite 1000) 1 = Inr 1000"
  using estimate_number_of_pages_whole [of 1000 1 "()"]
  by (simp add: estimate_fraction)

text \<open>
  Claim C9, as the claim states it, fails: the claim has the estimator raise
  \<^verbatim>\<open>ValueError\<close> only when the page size is below \<open>1\<close>, and return an integer of at
  least \<open>1\<close> whenever it raises neither \<^verbatim>\<open>ValueError\<close> nor \<^verbatim>\<open>AssertionError\<close>. The two
  guards of the code are all it checks, and the float arithmetic after them fails by
  itself: a NaN cardinality passes both guards and \<^verbatim>\<open>int\<close> of the NaN quotient raises
  \<^verbatim>\<open>ValueError\<close> at page size \<open>1\<close>; and a page size of \<open>10^400\<close> is too large to convert to
  a float, so the sum raises \<^verbatim>\<open>OverflowError\<close>.
\<close>

theorem estimate_number_of_pages_float_failures:
  "estimate_number_of_pages () NaN 1 = Inl ValueError \<and>
   estimate_number_of_pages () (Finite 1000) (10 ^ 400) = Inl OverflowError"
proof (rule conjI)
  show "estimate_number_of_pages () NaN 1 = Inl ValueError"
    by (simp add: estimate_number_of_pages_def float_of_int_one float_sub_def
        float_floor_div_def Let_def)
  show "estimate_number_of_pages () (Finite 1000) (10 ^ 400) = Inl OverflowError"
    by (simp add: estimate_number_of_pages_def float_of_int_def round_to_float_def
        overflow_bound_def)
qed

text \<open>
  Claim C9, amended. The estimator raises \<^verbatim>\<open>ValueError\<close> whenever the page size is below
  \<open>1\<close>, whatever the cardinality. For a page size of at least \<open>1\<close> it raises
  \<^verbatim>\<open>AssertionError\<close> exactly when the cardinality is below \<open>0\<close>, which minus infinity is
  and a NaN is not. For a page size of at least \<open>1\<close> and a cardinality that is not below
  \<open>0\<close> it raises \<^verbatim>\<open>OverflowError\<close> exactly when the page size is too large for a float
  (\<open>2^1024 - 2^970\<close> or more); it raises \<^verbatim>\<open>ValueError\<close> exactly when the page size is
  smaller than that and the float sum of cardinality and page size is not finite (the
  cardinality is a NaN or infinity, or the sum overflows); and it returns an integer of
  at least \<open>1\<close> in all other cases, which include every cardinality from \<open>0\<close> to
  \<open>2^1022\<close> with every page size from \<open>1\<close> to \<open>2^1022\<close>.
\<close>

theorem estimate_number_of_pages_outcomes:
  "(p < 1 \<longrightarrow> estimate_number_of_pages q c p = Inl ValueError) \<and>
   (1 \<le> p \<longrightarrow>
      (estimate_number_of_pages q c p = Inl AssertionError \<longleftrightarrow> float_less c (Finite 0))) \<and>
   (1 \<le> p \<longrightarrow> \<not> float_less c (Finite 0) \<longrightarrow>
      (estimate_number_of_pages q c p = Inl OverflowError \<longleftrightarrow> overflow_bound \<le> of_int p) \<and>
      (estimate_number_of_pages q c p = Inl ValueError \<longleftrightarrow>
         of_int p < overflow_bound \<and>
         \<not> is_finite (float_add c (round_to_float (of_int p)))) \<and>
      ((\<exists>n. estimate_number_of_pages q c p = Inr n \<and> 1 \<le> n) \<longleftrightarrow>
         of_int p < overflow_bound \<and>
         is_finite (float_add c (round_to_float (of_int p))))) \<and>
   (1 \<le> p \<longrightarrow> p \<le> 2 ^ 1022 \<longrightarrow> 0 \<le> r \<longrightarrow> r \<le> 2 ^ 1022 \<longrightarrow>
      (\<exists>n. estimate_number_of_pages q (Finite r) p = Inr n \<and> 1 \<le> n))"
proof (intro conjI impI)
  assume "p < 1"
  then show "estimate_number_of_pages q c p = Inl ValueError"
    by (rule estimate_number_of_pages_small_page_size)
next
  assume p: "1 \<le> p"
  show "estimate_number_of_pages q c p = Inl AssertionError \<longleftrightarrow> float_less c (Finite 0)"
  proof (cases "float_less c (Finite 0)")
    case True
    with p show ?thesis by (simp add: estimate_number_of_pages_negative)
  next
    case False
    consider "overflow_bound \<le> of_int p"
      | "of_int p < overflow_bound" "\<not> is_finite (float_add c (round_to_float (of_int p)))"
      | "of_int p < overflow_bound" "is_finite (float_add c (round_to_float (of_int p)))"
      by linarith
    then show ?thesis
    proof cases
      case 1
      with p False show ?thesis by (simp add: estimate_number_of_pages_overflow)
    next
      case 2
      with p False show ?thesis by (simp add: estimate_number_of_pages_not_finite)
    next
      case 3
      with estimate_number_of_pages_finite [OF p False, of q] False show ?thesis by auto
    qed
  qed
next
  assume p: "1 \<le> p" and c: "\<not> float_less c (Finite 0)"
  consider "overflow_bound \<le> of_int p"
    | "of_int p < overflow_bound" "\<not> is_finite (float_add c (round_to_float (of_int p)))"
    | "of_int p < overflow_bound" "is_finite (float_add c (round_to_float (of_int p)))"
    by linarith
  then show "estimate_number_of_pages q c p = Inl OverflowError \<longleftrightarrow> overflow_bound \<le> of_int p"
  proof cases
    case 1
    with p c show ?thesis by (simp add: estimate_number_of_pages_overflow)
  next
    case 2
    with p c show ?thesis by (simp add: estimate_number_of_pages_not_finite)
  next
    case 3
    with estimate_number_of_pages_finite [OF p c, of q] show ?thesis by auto
  qed
next
  assume p: "1 \<le> p" and c: "\<not> float_less c (Finite 0)"
  consider "overflow_bound \<le> of_int p"
    | "of_int p < overflow_bound" "\<not> is_finite (float_add c (round_to_float (of_int p)))"
    | "of_int p < overflow_bound" "is_finite (float_add c (round_to_float (of_int p)))"
    by linarith
  then show "estimate_number_of_pages q c p = Inl ValueError \<longleftrightarrow>
      of_int p < overflow_bound \<and> \<not> is_finite (float_add c (round_to_float (of_int p)))"
  proof cases
    case 1
    with p c show ?thesis by (simp add: estimate_number_of_pages_overflow)
  next
    case 2
    with p c show ?thesis by (simp add: estimate_number_of_pages_not_finite)
  next
    case 3
    with estimate_number_of_pages_finite [OF p c, of q] show ?thesis by auto
  qed
next
  assume p: "1 \<le> p" and c: "\<not> float_less c (Finite 0)"
  consider "overflow_bound \<le> of_int p"
    | "of_int p < overflow_bound" "\<not> is_finite (float_add c (round_to_float (of_int p)))"
    | "of_int p < overflow_bound" "is_finite (float_add c (round_to_float (of_int p)))"
    by linarith
  then show "(\<exists>n. estimate_number_of_pages q c p = Inr n \<and> 1 \<le> n) \<longleftrightarrow>
      of_int p < overflow_bound \<and> is_finite (float_add c (round_to_float (of_int p)))"
  proof cases
    case 1
    with p c show ?thesis by (simp add: estimate_number_of_pages_overflow)
  next
    case 2
    with p c show ?thesis by (simp add: estimate_number_of_pages_not_finite)
  next
    case 3
    with estimate_number_of_pages_finite [OF p c, of q] show ?thesis by auto
  qed
next
  assume p: "1 \<le> p" "p \<le> 2 ^ 1022" and r: "0 \<le> r" "r \<le> 2 ^ 1022"
  from float_add_finite_small [OF p r]
  have "of_int p < overflow_bound"
    "is_finite (float_add (Finite r) (round_to_float (of_int p)))" by simp_all
  moreover have "\<not> float_less (Finite r) (Finite 0)" using r(1) by simp
  ultimately show "\<exists>n. estimate_number_of_pages q (Finite r) p = Inr n \<and> 1 \<le> n"
    using estimate_number_of_pages_finite [OF p(1), of "Finite r" q] by blast
qed

theorem estimate_number_of_pages_outcomes_witness:
  "estimate_number_of_pages () (Finite 1000) 0 = Inl ValueError \<and>
   estimate_number_of_pages () (Finite (- 1)) 1 = Inl AssertionError \<and>
   estimate_number_of_pages () NegInf 1 = Inl AssertionError \<and>
   estimate_number_of_pages () (Finite 1000) (2 ^ 1024) = Inl OverflowError \<and>
   estimate_number_of_pages () PosInf 1 = Inl ValueError \<and>
   (\<exists>n. estimate_number_of_pages () (Finite 1000) 1 = Inr n \<and> 1 \<le> n)"
  using estimate_number_of_pages_outcomes [where p = 0 and q = "()" and c = "Finite 1000" and r = 0]
    estimate_number_of_pages_outcomes [where p = 1 and q = "()" and c = "Finite (- 1)" and r = 0]
    estimate_number_of_pages_outcomes [where p = 1 and q = "()" and c = NegInf and r = 0]
    estimate_number_of_pages_outcomes
      [where p = "2 ^ 1024" and q = "()" and c = "Finite 1000" and r = 0]
    estimate_number_of_pages_outcomes [where p = 1 and q = "()" and c = PosInf and r = 0]
    estimate_number_of_pages_outcomes
      [where p = 1 and q = "()" and c = "Finite 1000" and r = 1000]
    round_to_float_of_int [of 1001]
  by (simp add: overflow_bound_def round_to_float_samples)

subsection \<open>Filter directives\<close>

text \<open>
  Claim C10. The directive that \<^verbatim>\<open>_make_binary_filter_directive_node\<close> builds is named
  \<^verbatim>\<open>filter\<close>; its first argument holds the comparator and its second a list of the one
  string \<^verbatim>\<open>$\<close> followed by the parameter name. So \<^verbatim>\<open>_get_filter_node_operation\<close> reads the
  comparator back, \<^verbatim>\<open>_get_binary_filter_node_parameter\<close> hands \<^verbatim>\<open>$\<close> and the parameter
  name to \<^verbatim>\<open>get_parameter_name\<close>, and the pruning loop, run on a directive list
  that holds an injected filter of the same comparator, drops that filter and records
  its parameter.
\<close>

theorem make_binary_filter_directive_node_read_back:
  "directive_name (make_binary_filter_directive_node op_name param_name) = ''filter'' \<and>
   map arg_value (arguments (make_binary_filter_directive_node op_name param_name)) =
     [StringValueNode op_name, ListValueNode [StringValueNode (''$'' @ param_name)]] \<and>
   get_filter_node_operation (make_binary_filter_directive_node op_name param_name) =
     Inr op_name \<and>
   get_binary_filter_node_parameter gpn (make_binary_filter_directive_node op_name param_name) =
     gpn (''$'' @ param_name) \<and>
   prune_directives gpn (make_binary_filter_directive_node op_name new_name)
       [make_binary_filter_directive_node op_name param_name] ([], []) =
     (case gpn (''$'' @ param_name) of Inl e \<Rightarrow> Inl e | Inr n \<Rightarrow> Inr ([], [n]))"
  by (simp add: make_binary_filter_directive_node_def get_filter_node_operation_def
      get_binary_filter_node_parameter_def split: sum.splits)

subsection \<open>Orchestrator\<close>

lemma animal_analysis_pages:
  "estimate_number_of_pages (query_string_with_parameters animal_analysis)
     (cardinality_estimate animal_analysis) 1 = Inr 4"
  using estimate_number_of_pages_whole
      [of 4 1 "query_string_with_parameters animal_analysis"]
  by (simp add: animal_analysis_def)

lemma single_partition_branch:
  assumes "1 \<le> p"
    and "estimate_number_of_pages (query_string_with_parameters qa) (cardinality_estimate qa) p
           = Inr n"
    and "1 < n"
    and "gpp qa n = Inr (plan, adv)"
    and "vertex_partitions plan = [vp]"
    and "gen (schema_info qa) (ast_with_parameters qa) vp = Inr (v # vs)"
  shows "paginate_query_ast gpp gen gq gfn gpn qa p = Inl AttributeError"
  using assms by (simp add: paginate_query_ast_def generate_parameterized_queries_def Let_def)

lemma generate_parameterized_queries_three:
  "generate_parameterized_queries gq gfn gpn s q vp = Inr res \<Longrightarrow> length res = 3"
  by (auto simp: generate_parameterized_queries_def Let_def split: sum.splits)

lemma unpack_pair_three: "length res = 3 \<Longrightarrow> unpack_pair res = Inl ValueError"
  by (cases res rule: unpack_pair.cases) simp_all

lemma paginate_query_ast_returns_unsplit:
  assumes "paginate_query_ast gpp gen gq gfn gpn qa p = Inr (PageAndRemainder w sz pg rm, adv)"
  shows "pg = QueryObj (ast_with_parameters qa) \<and> rm = []"
  using assms
  by (auto simp: paginate_query_ast_def Let_def
      dest!: generate_parameterized_queries_three unpack_pair_three
      split: if_splits sum.splits list.splits prod.splits)

text \<open>
  Claim C1. The claim: with more than one estimated page, a plan of exactly one vertex
  partition and a generator that yields a value, \<^verbatim>\<open>paginate_query_ast\<close> returns the two
  queries of the query parameterizer. The code calls
  \<^verbatim>\<open>generate_parameterized_queries(query_analysis, plan_vertex_partition, first_param)\<close>,
  whose parameters are \<^verbatim>\<open>(schema_info, query, vertex_partition)\<close>: its first statement
  reads \<^verbatim>\<open>query.query_ast\<close> of the partition plan and raises \<^verbatim>\<open>AttributeError\<close>
  (\<open>single_partition_branch\<close>). And whatever the objects passed, the three values that
  the function returns do not unpack into \<^verbatim>\<open>page_query, remainder_query\<close>: every
  \<^verbatim>\<open>PageAndRemainder\<close> that \<^verbatim>\<open>paginate_query_ast\<close> returns holds the original query and
  no remainder (\<open>paginate_query_ast_returns_unsplit\<close>). Here on the query of
  \<^verbatim>\<open>test_basic_pagination\<close>, with page size \<open>1\<close>, the plan \<open>[animal_partition]\<close> and one
  generated boundary.
\<close>

theorem paginate_query_ast_single_partition_raises:
  "paginate_query_ast (\<lambda>a n. Inr (PaginationPlan [animal_partition], []))
     (\<lambda>s q v. Inr [StrLit ''40000000-0000-0000-0000-000000000000''])
     get_only_query_definition get_ast_field_name get_parameter_name animal_analysis 1
   = Inl AttributeError"
  by (rule single_partition_branch
        [where n = 4 and vp = animal_partition and plan = "PaginationPlan [animal_partition]"
           and adv = "[]"])
    (simp_all add: animal_analysis_pages)

text \<open>
  Claim C4. With a page size of at least \<open>1\<close>, more than one estimated page and a plan
  of more than one vertex partition, \<^verbatim>\<open>paginate_query_ast\<close> raises
  \<^verbatim>\<open>NotImplementedError\<close>: it returns no \<^verbatim>\<open>PageAndRemainder\<close>.
\<close>

theorem paginate_query_ast_not_implemented:
  assumes "1 \<le> p"
    and "estimate_number_of_pages (query_string_with_parameters qa) (cardinality_estimate qa) p
           = Inr n"
    and "1 < n"
    and "gpp qa n = Inr (plan, adv)"
    and "1 < length (vertex_partitions plan)"
  shows "paginate_query_ast gpp gen gq gfn gpn qa p = Inl NotImplementedError"
proof -
  have "vertex_partitions plan \<noteq> []" and "length (vertex_partitions plan) \<noteq> 1"
    using assms(5) by auto
  then show ?thesis
    using assms(1-4) by (simp add: paginate_query_ast_def Let_def)
qed

theorem paginate_query_ast_not_implemented_witness:
  "paginate_query_ast
     (\<lambda>a n. Inr (PaginationPlan [animal_partition, animal_partition], []))
     (\<lambda>s q v. Inr [StrLit ''40000000-0000-0000-0000-000000000000''])
     get_only_query_definition get_ast_field_name get_parameter_name animal_analysis 1
   = Inl NotImplementedError"
  by (rule paginate_query_ast_not_implemented
        [where n = 4 and plan = "PaginationPlan [animal_partition, animal_partition]"
           and adv = "[]"])
    (simp_all add: animal_analysis_pages)

text \<open>
  Claim C6. With a page size of at least \<open>1\<close>, \<^verbatim>\<open>paginate_query_ast\<close> splits nothing
  when the estimate is at most one page, when the plan has no vertex partition, and
  when the plan has one vertex partition for which the generator yields nothing: the
  page query and the whole query are the original query, the remainder is empty and
  the page size is the requested one. The advisories are empty in the first case and
  the selector's in the other two.
\<close>

theorem paginate_query_ast_no_split:
  assumes "1 \<le> p"
    and "estimate_number_of_pages (query_string_with_parameters qa) (cardinality_estimate qa) p
           = Inr n"
  shows "(n \<le> 1 \<longrightarrow>
            paginate_query_ast gpp gen gq gfn gpn qa p =
              Inr (PageAndRemainder (QueryObj (ast_with_parameters qa)) p
                     (QueryObj (ast_with_parameters qa)) [], [])) \<and>
         (1 < n \<longrightarrow> gpp qa n = Inr (plan, adv) \<longrightarrow> vertex_partitions plan = [] \<longrightarrow>
            paginate_query_ast gpp gen gq gfn gpn qa p =
              Inr (PageAndRemainder (QueryObj (ast_with_parameters qa)) p
                     (QueryObj (ast_with_parameters qa)) [], adv)) \<and>
         (1 < n \<longrightarrow> gpp qa n = Inr (plan, adv) \<longrightarrow> vertex_partitions plan = [vp] \<longrightarrow>
            gen (schema_info qa) (ast_with_parameters qa) vp = Inr [] \<longrightarrow>
            paginate_query_ast gpp gen gq gfn gpn qa p =
              Inr (PageAndRemainder (QueryObj (ast_with_parameters qa)) p
                     (QueryObj (ast_with_parameters qa)) [], adv))"
  using assms by (simp add: paginate_query_ast_def Let_def)

lemma animal_analysis_one_page:
  "estimate_number_of_pages (query_string_with_parameters animal_analysis)
     (cardinality_estimate animal_analysis) 10 = Inr 1"
  using estimate_number_of_pages_whole
      [of 4 10 "query_string_with_parameters animal_analysis"]
  by (simp add: animal_analysis_def)

theorem paginate_query_ast_no_split_witness:
  "paginate_query_ast
     (\<lambda>a n. Inr (PaginationPlan [animal_partition], [PaginationAdvisory ''unused'']))
     (\<lambda>s q v. Inr [StrLit ''40000000-0000-0000-0000-000000000000''])
     get_only_query_definition get_ast_field_name get_parameter_name animal_analysis 10
   = Inr (PageAndRemainder (QueryObj animal_query) 10 (QueryObj animal_query) [], []) \<and>
   paginate_query_ast
     (\<lambda>a n. Inr (PaginationPlan [], [PaginationAdvisory ''no pagination key'']))
     (\<lambda>s q v. Inr [StrLit ''40000000-0000-0000-0000-000000000000''])
     get_only_query_definition get_ast_field_name get_parameter_name animal_analysis 1
   = Inr (PageAndRemainder (QueryObj animal_query) 1 (QueryObj animal_query) [],
          [PaginationAdvisory ''no pagination key'']) \<and>
   paginate_query_ast
     (\<lambda>a n. Inr (PaginationPlan [animal_partition], [PaginationAdvisory ''no statistics'']))
     (\<lambda>s q v. Inr [])
     get_only_query_definition get_ast_field_name get_parameter_name animal_analysis 1
   = Inr (PageAndRemainder (QueryObj animal_query) 1 (QueryObj animal_query) [],
          [PaginationAdvisory ''no statistics''])"
  using
    paginate_query_ast_no_split [OF _ animal_analysis_one_page,
      where gpp = "\<lambda>a n. Inr (PaginationPlan [animal_partition], [PaginationAdvisory ''unused''])"
        and gen = "\<lambda>s q v. Inr [StrLit ''40000000-0000-0000-0000-000000000000'']"
        and gq = get_only_query_definition and gfn = get_ast_field_name
        and gpn = get_parameter_name]
    paginate_query_ast_no_split [OF _ animal_analysis_pages,
      where gpp = "\<lambda>a n. Inr (PaginationPlan [], [PaginationAdvisory ''no pagination key''])"
        and plan = "PaginationPlan []" and adv = "[PaginationAdvisory ''no pagination key'']"
        and gen = "\<lambda>s q v. Inr [StrLit ''40000000-0000-0000-0000-000000000000'']"
        and gq = get_only_query_definition and gfn = get_ast_field_name
        and gpn = get_parameter_name]
    paginate_query_ast_no_split [OF _ animal_analysis_pages,
      where gpp = "\<lambda>a n. Inr (PaginationPlan [animal_partition], [PaginationAdvisory ''no statistics''])"
        and plan = "PaginationPlan [animal_partition]"
        and adv = "[PaginationAdvisory ''no statistics'']"
        and gen = "\<lambda>s q v. Inr []" and vp = animal_partition
        and gq = get_only_query_definition and gfn = get_ast_field_name
        and gpn = get_parameter_name]
  by (simp add: animal_analysis_def)

subsection \<open>Filter injection\<close>







lemma succeeds_simps [simp]: "succeeds (Inr x)" "\<not> succeeds (Inl e)"
  by (simp_all add: succeeds_def)

lemma succeeds_iff: "succeeds r \<longleftrightarrow> (\<exists>x. r = Inr x)"
  by (cases r) simp_all





lemmas sample_defs =
  animal_query_def filtered_query_def query_root_def animal_vertex_def uuid_field_def
  name_field_def output_animal_def old_filter_def animal_partition_def
  make_binary_filter_directive_node_def get_filter_node_operation_def
  get_binary_filter_node_parameter_def

lemmas name_defs =
  generate_new_name_def generate_new_name_from.simps format_name_def str_of_nat.simps
  digit_char_def


subsection \<open>Query parameterizer\<close>

lemma generate_new_name_from_first_unused:
  "\<exists>j. i \<le> j \<and> generate_new_name_from b t i = format_name b j \<and> format_name b j |\<notin>| t \<and>
       (\<forall>k. i \<le> k \<longrightarrow> k < j \<longrightarrow> format_name b k |\<in>| t)"
proof (induction b t i rule: generate_new_name_from.induct)
  case (1 b t i)
  show ?case
  proof (cases "format_name b i |\<in>| t")
    case True
    from 1 [OF True] obtain j where j: "Suc i \<le> j"
      "generate_new_name_from b t (Suc i) = format_name b j" "format_name b j |\<notin>| t"
      "\<forall>k. Suc i \<le> k \<longrightarrow> k < j \<longrightarrow> format_name b k |\<in>| t" by blast
    have "generate_new_name_from b t i = format_name b j"
      using True j(2) by (subst generate_new_name_from.simps) simp
    moreover have "\<forall>k. i \<le> k \<longrightarrow> k < j \<longrightarrow> format_name b k |\<in>| t"
    proof (intro allI impI)
      fix k assume "i \<le> k" "k < j"
      then show "format_name b k |\<in>| t"
        using True j(4) by (cases "k = i") auto
    qed
    ultimately show ?thesis using j(1,3) by (intro exI [of _ j]) simp
  next
    case False
    then have "generate_new_name_from b t i = format_name b i"
      by (subst generate_new_name_from.simps) simp
    with False show ?thesis by (intro exI [of _ i]) simp
  qed
qed

lemma generate_new_name_first_unused:
  "\<exists>j. generate_new_name b t = format_name b j \<and> format_name b j |\<notin>| t \<and>
       (\<forall>k<j. format_name b k |\<in>| t)"
  using generate_new_name_from_first_unused [of 0 b t] by (auto simp: generate_new_name_def)

lemma generate_new_name_fresh: "generate_new_name b t |\<notin>| t"
  using generate_new_name_first_unused [of b t] by auto

lemma parameterized_queries_unfold:
  assumes "generate_parameterized_queries gq gfn gpn s (QueryObj q) (PartitionObj vp) = Inr res"
  shows "\<exists>qt page_root page_removed remainder_root remainder_removed.
           gq (query_ast q) = Inr qt \<and>
           add_pagination_filter gfn gpn qt (query_path vp) (pagination_field vp)
             (make_binary_filter_directive_node ''<''
                (generate_new_name ''__paged_param'' (fmdom (parameters q))))
             = Inr (page_root, page_removed) \<and>
           add_pagination_filter gfn gpn qt (query_path vp) (pagination_field vp)
             (make_binary_filter_directive_node ''>=''
                (generate_new_name ''__paged_param'' (fmdom (parameters q))))
             = Inr (remainder_root, remainder_removed) \<and>
           res = [QueryObj (ASTWithParameters (DocumentNode [page_root])
                    (fmfilter (\<lambda>k. k \<notin> set page_removed) (parameters q))),
                  QueryObj (ASTWithParameters (DocumentNode [remainder_root])
                    (fmfilter (\<lambda>k. k \<notin> set remainder_removed) (parameters q))),
                  StrObj (generate_new_name ''__paged_param'' (fmdom (parameters q)))]"
  using assms
  by (auto simp add: generate_parameterized_queries_def Let_def split: sum.splits)


lemma filtered_queries:
  "generate_parameterized_queries get_only_query_definition get_ast_field_name
     get_parameter_name (SchemaInfoObj ()) (QueryObj filtered_query) (PartitionObj animal_partition) =
   Inr [QueryObj (ASTWithParameters
          (DocumentNode
             [query_root [uuid_field [make_binary_filter_directive_node ''<'' ''__paged_param_0''],
                          name_field]])
          fmempty),
        QueryObj (ASTWithParameters
          (DocumentNode
             [query_root [uuid_field [old_filter,
                            make_binary_filter_directive_node ''>='' ''__paged_param_0''],
                          name_field]])
          (fmupd ''old'' (StrLit ''80000000-0000-0000-0000-000000000000'') fmempty)),
        StrObj ''__paged_param_0'']"
  by (simp add: generate_parameterized_queries_def sample_defs name_defs Let_def)

text \<open>
  Claim C8. The generated name is the base name, an underscore and the first index,
  counted from \<open>0\<close>, whose name is not taken; so it is no key of the query's
  parameters. \<^verbatim>\<open>generate_parameterized_queries\<close> passes this one name to both
  injections, with \<^verbatim>\<open><\<close> for the page query and \<^verbatim>\<open>>=\<close> for the remainder query, and
  returns it as the third component.
\<close>

theorem generated_parameter_name_first_unused:
  "(\<exists>j. generate_new_name b t = format_name b j \<and> format_name b j |\<notin>| t \<and>
        (\<forall>k<j. format_name b k |\<in>| t)) \<and>
   (generate_parameterized_queries gq gfn gpn s (QueryObj q) (PartitionObj vp) = Inr res \<longrightarrow>
      generate_new_name ''__paged_param'' (fmdom (parameters q)) |\<notin>| fmdom (parameters q) \<and>
      (\<exists>qt page page_root page_removed remainder remainder_root remainder_removed.
         res = [QueryObj page, QueryObj remainder,
                StrObj (generate_new_name ''__paged_param'' (fmdom (parameters q)))] \<and>
         gq (query_ast q) = Inr qt \<and>
         add_pagination_filter gfn gpn qt (query_path vp) (pagination_field vp)
           (make_binary_filter_directive_node ''<''
              (generate_new_name ''__paged_param'' (fmdom (parameters q))))
           = Inr (page_root, page_removed) \<and>
         query_ast page = DocumentNode [page_root] \<and>
         add_pagination_filter gfn gpn qt (query_path vp) (pagination_field vp)
           (make_binary_filter_directive_node ''>=''
              (generate_new_name ''__paged_param'' (fmdom (parameters q))))
           = Inr (remainder_root, remainder_removed) \<and>
         query_ast remainder = DocumentNode [remainder_root]))"
proof (intro conjI impI)
  show "\<exists>j. generate_new_name b t = format_name b j \<and> format_name b j |\<notin>| t \<and>
        (\<forall>k<j. format_name b k |\<in>| t)"
    by (rule generate_new_name_first_unused)
next
  show "generate_new_name ''__paged_param'' (fmdom (parameters q)) |\<notin>| fmdom (parameters q)"
    by (rule generate_new_name_fresh)
next
  assume "generate_parameterized_queries gq gfn gpn s (QueryObj q) (PartitionObj vp) = Inr res"
  from parameterized_queries_unfold [OF this] obtain qt pr prm rr rrm where
    "gq (query_ast q) = Inr qt"
    "add_pagination_filter gfn gpn qt (query_path vp) (pagination_field vp)
             (make_binary_filter_directive_node ''<''
                (generate_new_name ''__paged_param'' (fmdom (parameters q))))
             = Inr (pr, prm)"
    "add_pagination_filter gfn gpn qt (query_path vp) (pagination_field vp)
             (make_binary_filter_directive_node ''>=''
                (generate_new_name ''__paged_param'' (fmdom (parameters q))))
             = Inr (rr, rrm)"
    "res = [QueryObj (ASTWithParameters (DocumentNode [pr])
                    (fmfilter (\<lambda>k. k \<notin> set prm) (parameters q))),
                  QueryObj (ASTWithParameters (DocumentNode [rr])
                    (fmfilter (\<lambda>k. k \<notin> set rrm) (parameters q))),
                  StrObj (generate_new_name ''__paged_param'' (fmdom (parameters q)))]"
    by blast
  then show "\<exists>qt page page_root page_removed remainder remainder_root remainder_removed.
         res = [QueryObj page, QueryObj remainder,
                StrObj (generate_new_name ''__paged_param'' (fmdom (parameters q)))] \<and>
         gq (query_ast q) = Inr qt \<and>
         add_pagination_filter gfn gpn qt (query_path vp) (pagination_field vp)
           (make_binary_filter_directive_node ''<''
              (generate_new_name ''__paged_param'' (fmdom (parameters q))))
           = Inr (page_root, page_removed) \<and>
         query_ast page = DocumentNode [page_root] \<and>
         add_pagination_filter gfn gpn qt (query_path vp) (pagination_field vp)
           (make_binary_filter_directive_node ''>=''
              (generate_new_name ''__paged_param'' (fmdom (parameters q))))
           = Inr (remainder_root, remainder_removed) \<and>
         query_ast remainder = DocumentNode [remainder_root]"
    by (intro exI [of _ qt] exI [of _ pr] exI [of _ prm] exI [of _ rr] exI [of _ rrm]
        exI [of _ "ASTWithParameters (DocumentNode [pr])
                    (fmfilter (\<lambda>k. k \<notin> set prm) (parameters q))"]
        exI [of _ "ASTWithParameters (DocumentNode [rr])
                    (fmfilter (\<lambda>k. k \<notin> set rrm) (parameters q))"]) simp
qed


theorem generated_parameter_name_first_unused_witness:
  "(\<exists>j. generate_new_name ''__paged_param'' {|''__paged_param_0'', ''__paged_param_1''|}
          = format_name ''__paged_param'' j \<and>
        format_name ''__paged_param'' j |\<notin>| {|''__paged_param_0'', ''__paged_param_1''|} \<and>
        (\<forall>k<j. format_name ''__paged_param'' k |\<in>| {|''__paged_param_0'', ''__paged_param_1''|})) \<and>
   generate_new_name ''__paged_param'' {|''__paged_param_0'', ''__paged_param_1''|}
     = ''__paged_param_2'' \<and>
   generate_new_name ''__paged_param'' (fmdom (parameters filtered_query)) = ''__paged_param_0'' \<and>
   generate_new_name ''__paged_param'' (fmdom (parameters filtered_query))
     |\<notin>| fmdom (parameters filtered_query) \<and>
   (\<exists>qt page page_root page_removed remainder remainder_root remainder_removed.
      [QueryObj (ASTWithParameters
         (DocumentNode
            [query_root [uuid_field [make_binary_filter_directive_node ''<'' ''__paged_param_0''],
                         name_field]])
         fmempty),
       QueryObj (ASTWithParameters
         (DocumentNode
            [query_root [uuid_field [old_filter,
                           make_binary_filter_directive_node ''>='' ''__paged_param_0''],
                         name_field]])
         (fmupd ''old'' (StrLit ''80000000-0000-0000-0000-000000000000'') fmempty)),
       StrObj ''__paged_param_0'' :: unit pyobj]
      = [QueryObj page, QueryObj remainder,
         StrObj (generate_new_name ''__paged_param'' (fmdom (parameters filtered_query)))] \<and>
      get_only_query_definition (query_ast filtered_query) = Inr qt \<and>
      add_pagination_filter get_ast_field_name get_parameter_name qt
        (query_path animal_partition) (pagination_field animal_partition)
        (make_binary_filter_directive_node ''<''
           (generate_new_name ''__paged_param'' (fmdom (parameters filtered_query))))
        = Inr (page_root, page_removed) \<and>
      query_ast page = DocumentNode [page_root] \<and>
      add_pagination_filter get_ast_field_name get_parameter_name qt
        (query_path animal_partition) (pagination_field animal_partition)
        (make_binary_filter_directive_node ''>=''
           (generate_new_name ''__paged_param'' (fmdom (parameters filtered_query))))
        = Inr (remainder_root, remainder_removed) \<and>
      query_ast remainder = DocumentNode [remainder_root])"
proof -
  note inst = generated_parameter_name_first_unused [of "''__paged_param''" "{|''__paged_param_0'', ''__paged_param_1''|}"
      get_only_query_definition get_ast_field_name get_parameter_name "SchemaInfoObj ()"
      filtered_query animal_partition
      "[QueryObj (ASTWithParameters
         (DocumentNode
            [query_root [uuid_field [make_binary_filter_directive_node ''<'' ''__paged_param_0''],
                         name_field]])
         fmempty),
       QueryObj (ASTWithParameters
         (DocumentNode
            [query_root [uuid_field [old_filter,
                           make_binary_filter_directive_node ''>='' ''__paged_param_0''],
                         name_field]])
         (fmupd ''old'' (StrLit ''80000000-0000-0000-0000-000000000000'') fmempty)),
       StrObj ''__paged_param_0'']"]
  have n2: "generate_new_name ''__paged_param'' {|''__paged_param_0'', ''__paged_param_1''|}
     = ''__paged_param_2''"
    by (simp add: name_defs)
  have n0: "generate_new_name ''__paged_param'' (fmdom (parameters filtered_query))
     = ''__paged_param_0''"
    by (simp add: name_defs filtered_query_def)
  from inst filtered_queries n2 n0 show ?thesis by blast
qed




subsection \<open>The store\<close>

lemma extends_iff:
  "extends h h' \<longleftrightarrow> length h \<le> length h' \<and> (\<forall>a<length h. h' ! a = h ! a)"
proof
  assume e: "extends h h'"
  then have "length (take (length h) h') = length h" by (simp add: extends_def)
  then have len: "length h \<le> length h'" by simp
  moreover have "\<forall>a<length h. h' ! a = h ! a"
  proof (intro allI impI)
    fix a assume "a < length h"
    then have "take (length h) h' ! a = h' ! a" by simp
    with e show "h' ! a = h ! a" by (simp add: extends_def)
  qed
  ultimately show "length h \<le> length h' \<and> (\<forall>a<length h. h' ! a = h ! a)" by simp
next
  assume "length h \<le> length h' \<and> (\<forall>a<length h. h' ! a = h ! a)"
  then show "extends h h'"
    unfolding extends_def by (intro nth_equalityI) simp_all
qed

lemma extends_refl: "extends h h"
  by (simp add: extends_def)

lemma extends_trans: "extends h1 h2 \<Longrightarrow> extends h2 h3 \<Longrightarrow> extends h1 h3"
  by (auto simp: extends_iff)

lemma extends_length: "extends h h' \<Longrightarrow> length h \<le> length h'"
  by (simp add: extends_iff)

lemma extends_nth: "extends h h' \<Longrightarrow> a < length h \<Longrightarrow> h' ! a = h ! a"
  by (simp add: extends_iff)

lemma extends_append: "extends h (h @ xs)"
  by (simp add: extends_def)

lemma extends_update: "extends h h1 \<Longrightarrow> length h \<le> a \<Longrightarrow> extends h (h1[a := x])"
  by (auto simp: extends_iff)

lemma closed_iff:
  "closed h \<longleftrightarrow>
     (\<forall>a<length h. \<forall>sels. object_selections (h ! a) = Some sels \<longrightarrow> (\<forall>c\<in>set sels. c < length h))"
proof -
  have "closed h \<longleftrightarrow>
      (\<forall>obj\<in>set h. \<forall>sels. object_selections obj = Some sels \<longrightarrow> (\<forall>c\<in>set sels. c < length h))"
    by (auto simp: closed_def list_all_iff split: option.splits)
  also have "\<dots> \<longleftrightarrow>
      (\<forall>a<length h. \<forall>sels. object_selections (h ! a) = Some sels \<longrightarrow>
         (\<forall>c\<in>set sels. c < length h))"
    by (rule all_set_conv_all_nth)
  finally show ?thesis .
qed

lemma closed_children:
  "closed h \<Longrightarrow> selections_at h a = Some sels \<Longrightarrow> c \<in> set sels \<Longrightarrow> c < length h"
  by (auto simp: closed_iff selections_at_def split: if_splits)

lemma closed_append:
  assumes "closed h"
    and "\<And>sels c. object_selections obj = Some sels \<Longrightarrow> c \<in> set sels \<Longrightarrow> c \<le> length h"
  shows "closed (h @ [obj])"
  unfolding closed_iff
proof (intro allI impI ballI)
  fix a sels c
  assume a: "a < length (h @ [obj])" and s: "object_selections ((h @ [obj]) ! a) = Some sels"
    and c: "c \<in> set sels"
  show "c < length (h @ [obj])"
  proof (cases "a < length h")
    case True
    with s have "object_selections (h ! a) = Some sels" by (simp add: nth_append)
    with assms(1) True c have "c < length h" by (auto simp: closed_iff)
    then show ?thesis by simp
  next
    case False
    with a have "a = length h" by simp
    with s have "object_selections obj = Some sels" by simp
    from assms(2) [OF this c] show ?thesis by simp
  qed
qed

lemma closed_update:
  assumes "closed h"
    and "\<And>sels c. object_selections obj = Some sels \<Longrightarrow> c \<in> set sels \<Longrightarrow> c < length h"
  shows "closed (h[a := obj])"
  unfolding closed_iff
proof (intro allI impI ballI)
  fix b sels c
  assume b: "b < length (h[a := obj])" and s: "object_selections ((h[a := obj]) ! b) = Some sels"
    and c: "c \<in> set sels"
  show "c < length (h[a := obj])"
  proof (cases "b = a")
    case True
    with b s have "object_selections obj = Some sels" by simp
    from assms(2) [OF this c] show ?thesis by simp
  next
    case False
    with s have "object_selections (h ! b) = Some sels" by simp
    with assms(1) b c show ?thesis by (auto simp: closed_iff)
  qed
qed

lemma object_selections_with_directives [simp]:
  "object_selections (with_object_directives obj ds) = object_selections obj"
  by (cases obj) simp_all

lemma object_selections_with_selections:
  "object_selections (with_object_selections obj sels) =
     (if object_is_selection_capable obj then Some sels else None)"
  by (cases obj) simp_all

text \<open>Copying an object and assigning directives to the copy.\<close>

lemma copy_object_result:
  "copy_object h a = Inr (h1, a1) \<Longrightarrow> a < length h \<and> h1 = h @ [h ! a] \<and> a1 = length h"
  by (auto simp: copy_object_def lookup_def allocate_def split: if_splits)

lemma closed_copy:
  assumes "closed h" and "copy_object h a = Inr (h1, a1)"
  shows "closed h1"
proof -
  from copy_object_result [OF assms(2)] have a: "a < length h" and h1: "h1 = h @ [h ! a]"
    by simp_all
  have "closed (h @ [h ! a])"
  proof (rule closed_append [OF assms(1)])
    fix sels c assume "object_selections (h ! a) = Some sels" "c \<in> set sels"
    with assms(1) a have "c < length h" by (auto simp: closed_iff)
    then show "c \<le> length h" by simp
  qed
  with h1 show ?thesis by simp
qed

lemma closed_assign_directives:
  assumes "closed h"
  shows "closed (assign_directives h a ds)"
proof (cases "a < length h")
  case True
  show ?thesis
    unfolding assign_directives_def
  proof (rule closed_update [OF assms])
    fix sels c
    assume "object_selections (with_object_directives (h ! a) ds) = Some sels" and "c \<in> set sels"
    with assms True show "c < length h" by (auto simp: closed_iff)
  qed
next
  case False
  then show ?thesis using assms by (simp add: assign_directives_def list_update_beyond)
qed

lemma length_assign_directives [simp]: "length (assign_directives h a ds) = length h"
  by (simp add: assign_directives_def)

lemma length_assign_selection_set [simp]: "length (assign_selection_set h a sels) = length h"
  by (simp add: assign_selection_set_def)

lemma closed_assign_selection_set:
  "closed h \<Longrightarrow> (\<And>c. c \<in> set sels \<Longrightarrow> c < length h) \<Longrightarrow> closed (assign_selection_set h a sels)"
  unfolding assign_selection_set_def
  by (rule closed_update) (auto simp: object_selections_with_selections split: if_splits)

lemma extends_assign_directives:
  "extends h h1 \<Longrightarrow> length h \<le> a \<Longrightarrow> extends h (assign_directives h1 a ds)"
  by (simp add: assign_directives_def extends_update)

lemma extends_assign_selection_set:
  "extends h h1 \<Longrightarrow> length h \<le> a \<Longrightarrow> extends h (assign_selection_set h1 a sels)"
  by (simp add: assign_selection_set_def extends_update)

lemma selections_at_assign_selection_set:
  "a < length h \<Longrightarrow> object_is_selection_capable (h ! a) \<Longrightarrow>
     selections_at (assign_selection_set h a sels) a = Some sels"
  by (simp add: selections_at_def assign_selection_set_def object_selections_with_selections)

lemma selections_at_extends:
  "extends h h' \<Longrightarrow> a < length h \<Longrightarrow> selections_at h' a = selections_at h a"
  by (auto simp: selections_at_def extends_iff)

lemma name_at_extends:
  "extends h h' \<Longrightarrow> a < length h \<Longrightarrow> name_at gfn h' a = name_at gfn h a"
  by (auto simp: name_at_def lookup_def extends_iff)

lemma name_at_lookup: "lookup h c = Inr obj \<Longrightarrow> name_at gfn h c = gfn obj"
  by (simp add: name_at_def)

lemma lookup_Inr: "lookup h c = Inr obj \<Longrightarrow> c < length h \<and> obj = h ! c"
  by (auto simp: lookup_def split: if_splits)

lemma selections_at_lookup:
  "lookup h a = Inr obj \<Longrightarrow> selections_at h a = object_selections obj"
  by (auto simp: lookup_def selections_at_def split: if_splits)

lemma list_ex_cong_set:
  "(\<And>x. x \<in> set xs \<Longrightarrow> P x = Q x) \<Longrightarrow> list_ex P xs = list_ex Q xs"
  by (auto simp: list_ex_iff)

lemma list_all2_unmatched:
  "list_all2 (\<lambda>c c'. if P c then Q c c' else c' = c) xs ys \<Longrightarrow> \<not> list_ex P xs \<Longrightarrow> ys = xs"
  by (induction xs ys rule: list_all2_induct) auto

lemma shares_extend:
  assumes "shares gfn h2 h3 path f a a'"
    and "extends h1 h2" and "extends h3 h4" and "closed h1" and "a < length h1"
  shows "shares gfn h1 h4 path f a a'"
  using assms(1,5)
proof (induction path arbitrary: a a')
  case Nil
  note e12 = assms(2) and e34 = assms(3) and cl = assms(4)
  from Nil.prems(1) obtain sels sels' where
    fresh: "length h2 \<le> a'" "a' < length h3"
    and s: "selections_at h2 a = Some sels" and s': "selections_at h3 a' = Some sels'"
    and body: "if list_ex (\<lambda>c. name_at gfn h2 c = Inr f) sels
               then list_all2 (\<lambda>c c'. if name_at gfn h2 c = Inr f
                                        then length h2 \<le> c' \<and> c' < length h3 else c' = c)
                      sels sels'
               else (case sels' of [] \<Rightarrow> False
                     | c' # rest \<Rightarrow> length h2 \<le> c' \<and> c' < length h3 \<and> rest = sels)"
    by (auto split: option.splits)
  from e12 e34 have len: "length h1 \<le> length h2" "length h3 \<le> length h4"
    by (simp_all add: extends_length)
  from s selections_at_extends [OF e12 Nil.prems(2)] have s1: "selections_at h1 a = Some sels"
    by simp
  from s' selections_at_extends [OF e34 fresh(2)] have s4: "selections_at h4 a' = Some sels'"
    by simp
  have inb: "\<And>c. c \<in> set sels \<Longrightarrow> c < length h1"
    by (rule closed_children [OF cl s1])
  have nm: "\<And>c. c \<in> set sels \<Longrightarrow> name_at gfn h2 c = name_at gfn h1 c"
    by (rule name_at_extends [OF e12]) (rule inb)
  have ex: "list_ex (\<lambda>c. name_at gfn h1 c = Inr f) sels
            = list_ex (\<lambda>c. name_at gfn h2 c = Inr f) sels"
    by (rule list_ex_cong_set) (simp add: nm)
  show ?case
  proof (cases "list_ex (\<lambda>c. name_at gfn h2 c = Inr f) sels")
    case True
    with body have "list_all2 (\<lambda>c c'. if name_at gfn h2 c = Inr f
                                        then length h2 \<le> c' \<and> c' < length h3 else c' = c)
                      sels sels'" by simp
    then have "list_all2 (\<lambda>c c'. if name_at gfn h1 c = Inr f
                                        then length h1 \<le> c' \<and> c' < length h4 else c' = c)
                      sels sels'"
      by (rule list.rel_mono_strong) (use len nm in \<open>auto split: if_splits\<close>)
    with True ex fresh len s1 s4 show ?thesis by simp
  next
    case False
    with body obtain c' where "sels' = c' # sels" "length h2 \<le> c'" "c' < length h3"
      by (auto split: list.splits)
    with False ex fresh len s1 s4 show ?thesis by simp
  qed
next
  case (Cons p ps)
  note e12 = assms(2) and e34 = assms(3) and cl = assms(4)
  from Cons.prems(1) obtain sels sels' where
    fresh: "length h2 \<le> a'" "a' < length h3"
    and s: "selections_at h2 a = Some sels" and s': "selections_at h3 a' = Some sels'"
    and body: "list_all2 (\<lambda>c c'. if name_at gfn h2 c = Inr p
                                    then shares gfn h2 h3 ps f c c' else c' = c) sels sels'"
    by (auto split: option.splits)
  from e12 e34 have len: "length h1 \<le> length h2" "length h3 \<le> length h4"
    by (simp_all add: extends_length)
  from s selections_at_extends [OF e12 Cons.prems(2)] have s1: "selections_at h1 a = Some sels"
    by simp
  from s' selections_at_extends [OF e34 fresh(2)] have s4: "selections_at h4 a' = Some sels'"
    by simp
  have inb: "\<And>c. c \<in> set sels \<Longrightarrow> c < length h1"
    by (rule closed_children [OF cl s1])
  have nm: "\<And>c. c \<in> set sels \<Longrightarrow> name_at gfn h2 c = name_at gfn h1 c"
    by (rule name_at_extends [OF e12]) (rule inb)
  from body have "list_all2 (\<lambda>c c'. if name_at gfn h1 c = Inr p
                                    then shares gfn h1 h4 ps f c c' else c' = c) sels sels'"
  proof (rule list.rel_mono_strong)
    fix c c'
    assume c: "c \<in> set sels"
      and "if name_at gfn h2 c = Inr p then shares gfn h2 h3 ps f c c' else c' = c"
    with nm [OF c] Cons.IH [OF _ inb [OF c]]
    show "if name_at gfn h1 c = Inr p then shares gfn h1 h4 ps f c c' else c' = c"
      by (auto split: if_splits)
  qed
  with fresh len s1 s4 show ?case by simp
qed

lemma store_vertex_selections_frame:
  assumes "store_vertex_selections gfn gpn f d sels (h, ns, rp, fnd) = Inr (h', ns', rp', fnd')"
    and "closed h" and "\<And>c. c \<in> set sels \<Longrightarrow> c < length h"
  shows "extends h h' \<and> closed h' \<and>
         (\<exists>cs. ns' = ns @ cs \<and>
            list_all2 (\<lambda>c c'. if name_at gfn h c = Inr f
                                then length h \<le> c' \<and> c' < length h' else c' = c) sels cs) \<and>
         fnd' = (fnd \<or> list_ex (\<lambda>c. name_at gfn h c = Inr f) sels)"
  using assms
proof (induction sels arbitrary: h ns rp fnd)
  case Nil
  then show ?case by (simp add: extends_refl)
next
  case (Cons c rest)
  from Cons.prems(1) obtain obj fname where lk: "lookup h c = Inr obj" and fname: "gfn obj = Inr fname"
    by (auto split: sum.splits)
  from name_at_lookup [OF lk] fname have nm: "name_at gfn h c = Inr fname" by simp
  have rest_in: "\<And>x. x \<in> set rest \<Longrightarrow> x < length h" using Cons.prems(3) by simp
  show ?case
  proof (cases "fname = f")
    case False
    with Cons.prems(1) lk fname have
      loop: "store_vertex_selections gfn gpn f d rest (h, ns @ [c], rp, fnd) = Inr (h', ns', rp', fnd')"
      by simp
    from Cons.IH [OF loop Cons.prems(2) rest_in] obtain cs where
      "extends h h'" "closed h'" "ns' = (ns @ [c]) @ cs"
      "list_all2 (\<lambda>c c'. if name_at gfn h c = Inr f
                           then length h \<le> c' \<and> c' < length h' else c' = c) rest cs"
      "fnd' = (fnd \<or> list_ex (\<lambda>c. name_at gfn h c = Inr f) rest)"
      by blast
    with False nm show ?thesis
      by (intro conjI exI [of _ "c # cs"]) simp_all
  next
    case True
    with Cons.prems(1) lk fname obtain h1 a1 obj' nd rp1 where
      cp: "copy_object h c = Inr (h1, a1)"
      and lk': "lookup (assign_directives h1 a1 (object_directives obj)) c = Inr obj'"
      and pr: "prune_directives gpn d (object_directives obj') ([], rp) = Inr (nd, rp1)"
      and loop: "store_vertex_selections gfn gpn f d rest
                   (assign_directives (assign_directives h1 a1 (object_directives obj)) a1 (nd @ [d]),
                    ns @ [a1], rp1, True) = Inr (h', ns', rp', fnd')"
      by (auto simp: Let_def split: sum.splits)
    define h3 where
      "h3 = assign_directives (assign_directives h1 a1 (object_directives obj)) a1 (nd @ [d])"
    from copy_object_result [OF cp] have h1: "h1 = h @ [h ! c]" and a1: "a1 = length h"
      by simp_all
    have e3: "extends h h3"
      unfolding h3_def h1 a1
      by (intro extends_assign_directives extends_append) simp_all
    have c3: "closed h3"
      unfolding h3_def
      by (intro closed_assign_directives closed_copy [OF Cons.prems(2) cp])
    have l3: "length h3 = Suc (length h)" by (simp add: h3_def h1)
    have rest3: "\<And>x. x \<in> set rest \<Longrightarrow> x < length h3" using rest_in l3 by fastforce
    from Cons.IH [OF loop [folded h3_def] c3 rest3] obtain cs where
      e: "extends h3 h'" and cl: "closed h'" and ns': "ns' = (ns @ [a1]) @ cs"
      and rel: "list_all2 (\<lambda>c c'. if name_at gfn h3 c = Inr f
                           then length h3 \<le> c' \<and> c' < length h' else c' = c) rest cs"
      and fnd': "fnd' = (True \<or> list_ex (\<lambda>c. name_at gfn h3 c = Inr f) rest)"
      by blast
    from rel have rel': "list_all2 (\<lambda>c c'. if name_at gfn h c = Inr f
                           then length h \<le> c' \<and> c' < length h' else c' = c) rest cs"
    proof (rule list.rel_mono_strong)
      fix x x' assume x: "x \<in> set rest"
        and "if name_at gfn h3 x = Inr f then length h3 \<le> x' \<and> x' < length h' else x' = x"
      with name_at_extends [OF e3 rest_in [OF x], of gfn] l3
      show "if name_at gfn h x = Inr f then length h \<le> x' \<and> x' < length h' else x' = x"
        by (auto split: if_splits)
    qed
    from extends_length [OF e] l3 a1 have a1': "length h \<le> a1" "a1 < length h'" by simp_all
    from extends_trans [OF e3 e] cl ns' rel' fnd' True nm a1' show ?thesis
      by (intro conjI exI [of _ "a1 # cs"]) simp_all
  qed
qed

lemma list_all2_bounded:
  assumes "list_all2 (\<lambda>c c'. if P c then Q c c' else c' = c) xs ys"
    and "\<And>c. c \<in> set xs \<Longrightarrow> c < n"
    and "\<And>c c'. c \<in> set xs \<Longrightarrow> P c \<Longrightarrow> Q c c' \<Longrightarrow> c' < n"
    and "y \<in> set ys"
  shows "y < n"
proof -
  have "list_all2 R as bs \<Longrightarrow> b \<in> set bs \<Longrightarrow> \<exists>a\<in>set as. R a b" for R as bs b
    by (induction rule: list_all2_induct) auto
  from this [OF assms(1,4)] obtain x where "x \<in> set xs" "if P x then Q x y else y = x"
    by blast
  with assms(2,3) show ?thesis by (auto split: if_splits)
qed

lemma finish_rewrite:
  assumes cp: "copy_object h1 a = Inr (h2, a')"
    and e: "extends h h1" and cl: "closed h1"
    and ns: "\<And>c. c \<in> set ns \<Longrightarrow> c < length h1"
    and cap: "object_is_selection_capable (h1 ! a)"
  shows "extends h (assign_selection_set h2 a' ns) \<and> closed (assign_selection_set h2 a' ns) \<and>
         length h \<le> a' \<and> a' < length (assign_selection_set h2 a' ns) \<and>
         extends h1 (assign_selection_set h2 a' ns) \<and>
         selections_at (assign_selection_set h2 a' ns) a' = Some ns"
proof -
  from copy_object_result [OF cp] have h2: "h2 = h1 @ [h1 ! a]" and a': "a' = length h1"
    by simp_all
  have e12: "extends h1 (assign_selection_set h2 a' ns)"
    unfolding h2 a' by (intro extends_assign_selection_set extends_append) simp
  have "closed h2" by (rule closed_copy [OF cl cp])
  then have "closed (assign_selection_set h2 a' ns)"
    by (rule closed_assign_selection_set) (use ns h2 in fastforce)
  moreover have "selections_at (assign_selection_set h2 a' ns) a' = Some ns"
    by (rule selections_at_assign_selection_set) (simp_all add: h2 a' cap)
  ultimately show ?thesis
    using extends_trans [OF e e12] e12 extends_length [OF e] by (simp add: h2 a')
qed

lemma store_add_pagination_filter_frame:
  "store_add_pagination_filter gfn gpn h a path f d = Inr (h', a', removed) \<Longrightarrow> closed h \<Longrightarrow>
     extends h h' \<and> closed h' \<and> shares gfn h h' path f a a'"
  and store_path_selections_frame:
  "store_path_selections gfn gpn p ps f d sels st = Inr st' \<Longrightarrow> closed (fst st) \<Longrightarrow>
     (\<And>c. c \<in> set sels \<Longrightarrow> c < length (fst st)) \<Longrightarrow>
     extends (fst st) (fst st') \<and> closed (fst st') \<and>
     (\<exists>cs. fst (snd st') = fst (snd st) @ cs \<and>
        list_all2 (\<lambda>c c'. if name_at gfn (fst st) c = Inr p
                            then shares gfn (fst st) (fst st') ps f c c' else c' = c) sels cs) \<and>
     snd (snd (snd st')) =
       (snd (snd (snd st)) \<or> list_ex (\<lambda>c. name_at gfn (fst st) c = Inr p) sels)"
proof (induction gfn gpn h a path f d and gfn gpn p ps f d sels st
    arbitrary: h' a' removed and st'
    rule: store_add_pagination_filter_store_path_selections.induct)
  case (1 gfn gpn h a f d)
  from "1.prems"(1) obtain obj sels where lk: "lookup h a = Inr obj"
    and cap: "object_is_selection_capable obj"
    and ss: "object_selections obj = Some sels"
    by (auto split: sum.splits if_splits option.splits)
  from lookup_Inr [OF lk] have ain: "a < length h" and obj: "obj = h ! a" by simp_all
  from "1.prems"(1) lk cap ss obtain h1 ns rm fnd h2 ns2 h3 where
    vs: "store_vertex_selections gfn gpn f d sels (h, [], [], False) = Inr (h1, ns, rm, fnd)"
    and alloc: "(h2, ns2) = (if \<not> fnd
                   then (case allocate h1 (FieldObject None f None [d] None) of
                           (h2, new_field) \<Rightarrow> (h2, new_field # ns))
                   else (h1, ns))"
    and cp: "copy_object h2 a = Inr (h3, a')"
    and h': "h' = assign_selection_set h3 a' ns2"
    by (auto split: sum.splits if_splits prod.splits)
  from selections_at_lookup [OF lk] ss have sa: "selections_at h a = Some sels" by simp
  have inb: "\<And>c. c \<in> set sels \<Longrightarrow> c < length h"
    by (rule closed_children [OF "1.prems"(2) sa])
  from store_vertex_selections_frame [OF vs "1.prems"(2) inb] have
    e1: "extends h h1" and c1: "closed h1"
    and rel: "list_all2 (\<lambda>c c'. if name_at gfn h c = Inr f
                                then length h \<le> c' \<and> c' < length h1 else c' = c) sels ns"
    and fnd: "fnd = list_ex (\<lambda>c. name_at gfn h c = Inr f) sels"
    by auto
  have ns1: "\<And>c. c \<in> set ns \<Longrightarrow> c < length h1"
  proof (rule list_all2_bounded [OF rel])
    fix c assume "c \<in> set sels"
    with inb extends_length [OF e1] show "c < length h1" by fastforce
  next
    fix c c' assume "length h \<le> c' \<and> c' < length h1"
    then show "c' < length h1" by simp
  qed
  show ?case
  proof (cases fnd)
    case True
    with alloc have eq: "h2 = h1" "ns2 = ns" by simp_all
    from cap obj extends_nth [OF e1 ain] have "object_is_selection_capable (h1 ! a)" by simp
    from finish_rewrite [OF cp [unfolded eq] e1 c1 ns1 this] h' eq have
      fin: "extends h h'" "closed h'" "length h \<le> a'" "a' < length h'" "extends h1 h'"
        "selections_at h' a' = Some ns"
      by simp_all
    from rel have "list_all2 (\<lambda>c c'. if name_at gfn h c = Inr f
                                then length h \<le> c' \<and> c' < length h' else c' = c) sels ns"
      by (rule list.rel_mono_strong) (use extends_length [OF fin(5)] in \<open>auto split: if_splits\<close>)
    with fin sa True fnd show ?thesis by simp
  next
    case False
    with alloc have eq: "h2 = h1 @ [FieldObject None f None [d] None]"
      "ns2 = length h1 # ns"
      by (simp_all add: allocate_def)
    from False fnd list_all2_unmatched [OF rel] have nseq: "ns = sels" by simp
    have e2: "extends h h2" unfolding eq by (rule extends_trans [OF e1 extends_append])
    have c2: "closed h2" unfolding eq by (rule closed_append [OF c1]) simp
    have ns2: "\<And>c. c \<in> set ns2 \<Longrightarrow> c < length h2" using ns1 eq by fastforce
    from cap obj extends_nth [OF e2 ain] have "object_is_selection_capable (h2 ! a)" by simp
    from finish_rewrite [OF cp e2 c2 ns2 this] h' have
      fin: "extends h h'" "closed h'" "length h \<le> a'" "a' < length h'" "extends h2 h'"
        "selections_at h' a' = Some ns2"
      by simp_all
    from extends_length [OF e1] extends_length [OF fin(5)] eq have
      "length h \<le> length h1" "length h1 < length h'" by simp_all
    with fin sa False fnd eq nseq show ?thesis by simp
  qed
next
  case (2 gfn gpn h a p ps f d)
  from "2.prems"(1) obtain obj sels where lk: "lookup h a = Inr obj"
    and cap: "object_is_selection_capable obj"
    and ss: "object_selections obj = Some sels"
    by (auto split: sum.splits if_splits option.splits)
  with "2.prems"(1) obtain h1 ns rm h2 where
    loop: "store_path_selections gfn gpn p ps f d sels (h, [], [], False) = Inr (h1, ns, rm, True)"
    and cp: "copy_object h1 a = Inr (h2, a')"
    and h': "h' = assign_selection_set h2 a' ns"
    by (auto split: sum.splits if_splits prod.splits)
  from selections_at_lookup [OF lk] ss have sa: "selections_at h a = Some sels" by simp
  have inb: "\<And>c. c \<in> set sels \<Longrightarrow> c < length h"
    by (rule closed_children [OF "2.prems"(2) sa])
  from "2.IH" [OF lk _ ss loop] cap "2.prems"(2) inb have
    e1: "extends h h1" and c1: "closed h1"
    and rel: "list_all2 (\<lambda>c c'. if name_at gfn h c = Inr p
                            then shares gfn h h1 ps f c c' else c' = c) sels ns"
    by (simp_all cong: if_cong)
  have ns1: "\<And>c. c \<in> set ns \<Longrightarrow> c < length h1"
  proof (rule list_all2_bounded [OF rel])
    fix c assume "c \<in> set sels"
    with inb extends_length [OF e1] show "c < length h1" by fastforce
  next
    fix c c' assume "shares gfn h h1 ps f c c'"
    then show "c' < length h1" by (cases ps) simp_all
  qed
  from lookup_Inr [OF lk] have ain: "a < length h" and obj: "obj = h ! a" by simp_all
  from cap obj extends_nth [OF e1 ain] have "object_is_selection_capable (h1 ! a)" by simp
  from finish_rewrite [OF cp e1 c1 ns1 this] h' have
    fin: "extends h h'" "closed h'" "length h \<le> a'" "a' < length h'" "extends h1 h'"
      "selections_at h' a' = Some ns"
    by simp_all
  from rel have "list_all2 (\<lambda>c c'. if name_at gfn h c = Inr p
                            then shares gfn h h' ps f c c' else c' = c) sels ns"
  proof (rule list.rel_mono_strong)
    fix c c' assume c: "c \<in> set sels"
      and "if name_at gfn h c = Inr p then shares gfn h h1 ps f c c' else c' = c"
    with shares_extend [OF _ extends_refl fin(5) "2.prems"(2) inb [OF c], of gfn ps f c']
    show "if name_at gfn h c = Inr p then shares gfn h h' ps f c c' else c' = c"
      by (auto split: if_splits)
  qed
  with fin sa show ?case by simp
next
  case (3 gfn gpn p ps f d st)
  then show ?case by (simp add: extends_refl)
next
  case (4 gfn gpn p ps f d c rest h ns rp fnd)
  from "4.prems"(1) obtain obj fname where lk: "lookup h c = Inr obj" and fname: "gfn obj = Inr fname"
    by (auto split: sum.splits)
  from name_at_lookup [OF lk] fname have nm: "name_at gfn h c = Inr fname" by simp
  from "4.prems"(2) have cl: "closed h" by simp
  have rest_in: "\<And>x. x \<in> set rest \<Longrightarrow> x < length h" using "4.prems"(3) by simp
  from lookup_Inr [OF lk] have cin: "c < length h" by simp
  show ?case
  proof (cases "fname = p")
    case False
    with "4.prems"(1) lk fname have
      loop: "store_path_selections gfn gpn p ps f d rest (h, ns @ [c], rp, fnd) = Inr st'"
      by simp
    from "4.IH"(3) [OF lk fname False loop] cl rest_in obtain cs where
      "extends h (fst st')" "closed (fst st')" "fst (snd st') = (ns @ [c]) @ cs"
      "list_all2 (\<lambda>c c'. if name_at gfn h c = Inr p
                           then shares gfn h (fst st') ps f c c' else c' = c) rest cs"
      "snd (snd (snd st')) = (fnd \<or> list_ex (\<lambda>c. name_at gfn h c = Inr p) rest)"
      by (auto cong: if_cong)
    with False nm show ?thesis
      by (intro conjI exI [of _ "c # cs"]) (simp_all split del: if_split cong: if_cong)
  next
    case True
    with "4.prems"(1) lk fname obtain h1 c1 sub where
      call: "store_add_pagination_filter gfn gpn h c ps f d = Inr (h1, c1, sub)"
      and loop: "store_path_selections gfn gpn p ps f d rest (h1, ns @ [c1], rp @ sub, True) = Inr st'"
      by (auto split: sum.splits)
    from "4.IH"(1) [OF lk fname True call cl] have
      e1: "extends h h1" and c1: "closed h1" and sh: "shares gfn h h1 ps f c c1"
      by simp_all
    have rest1: "\<And>x. x \<in> set rest \<Longrightarrow> x < length h1"
      using rest_in extends_length [OF e1] by fastforce
    from "4.IH"(2) [OF lk fname True call refl refl loop] c1 rest1 obtain cs where
      e: "extends h1 (fst st')" and cl': "closed (fst st')"
      and ns': "fst (snd st') = (ns @ [c1]) @ cs"
      and rel: "list_all2 (\<lambda>c c'. if name_at gfn h1 c = Inr p
                           then shares gfn h1 (fst st') ps f c c' else c' = c) rest cs"
      by (auto cong: if_cong)
    from rel have rel': "list_all2 (\<lambda>c c'. if name_at gfn h c = Inr p
                           then shares gfn h (fst st') ps f c c' else c' = c) rest cs"
    proof (rule list.rel_mono_strong)
      fix x x' assume x: "x \<in> set rest"
        and "if name_at gfn h1 x = Inr p then shares gfn h1 (fst st') ps f x x' else x' = x"
      with name_at_extends [OF e1 rest_in [OF x], of gfn]
        shares_extend [OF _ e1 extends_refl cl rest_in [OF x], of gfn "fst st'" ps f x']
      show "if name_at gfn h x = Inr p then shares gfn h (fst st') ps f x x' else x' = x"
        by (auto split: if_splits)
    qed
    from shares_extend [OF sh extends_refl e cl cin] have
      sh': "shares gfn h (fst st') ps f c c1" .
    from "4.IH"(2) [OF lk fname True call refl refl loop] c1 rest1 have
      "snd (snd (snd st'))" by simp
    with extends_trans [OF e1 e] cl' ns' rel' sh' True nm show ?thesis
      by (intro conjI exI [of _ "c1 # cs"]) (simp_all split del: if_split cong: if_cong)
  qed
qed

lemma shares_root_in_store: "shares gfn h h' path f a a' \<Longrightarrow> a < length h"
  by (cases path) (auto simp: selections_at_def split: option.splits if_splits)

lemma represents_list_iff: "represents_list h as ts \<longleftrightarrow> list_all2 (represents h) as ts"
proof (induction as arbitrary: ts)
  case Nil
  then show ?case by (cases ts) simp_all
next
  case (Cons a as)
  then show ?case by (cases ts) simp_all
qed

lemma represents_iff:
  "represents h a t \<longleftrightarrow>
     a < length h \<and> same_attributes (h ! a) t \<and>
     rel_option (list_all2 (represents h)) (object_selections (h ! a)) (tree_selections t)"
proof (cases t)
  case (FieldNode al n args ds ss)
  then show ?thesis
    by (cases ss; cases "object_selections (h ! a)") (simp_all add: represents_list_iff)
next
  case (InlineFragmentNode ty ds ss)
  then show ?thesis
    by (cases ss; cases "object_selections (h ! a)") (simp_all add: represents_list_iff)
next
  case (OperationDefinitionNode oper n ds ss)
  then show ?thesis
    by (cases ss; cases "object_selections (h ! a)") (simp_all add: represents_list_iff)
next
  case (FragmentSpreadNode n ds)
  then show ?thesis
    by (cases "h ! a") simp_all
qed

lemma represents_extends:
  "represents h a t \<Longrightarrow> extends h h' \<Longrightarrow> represents h' a t"
  and represents_list_extends:
  "represents_list h as ts \<Longrightarrow> extends h h' \<Longrightarrow> represents_list h' as ts"
proof (induction h a t and h as ts rule: represents_represents_list.induct)
  case (1 h a al n args ds ss)
  from "1.prems" have a: "a < length h" by simp
  from extends_nth [OF "1.prems"(2) a] extends_length [OF "1.prems"(2)] a "1.prems" "1.IH"
  show ?case by (auto split: option.splits)
next
  case (2 h a t ds ss)
  from "2.prems" have a: "a < length h" by simp
  from extends_nth [OF "2.prems"(2) a] extends_length [OF "2.prems"(2)] a "2.prems" "2.IH"
  show ?case by (auto split: option.splits)
next
  case (3 h a oper n ds ss)
  from "3.prems" have a: "a < length h" by simp
  from extends_nth [OF "3.prems"(2) a] extends_length [OF "3.prems"(2)] a "3.prems" "3.IH"
  show ?case by (auto split: option.splits)
next
  case (4 h a n ds)
  from "4.prems" have a: "a < length h" by simp
  from extends_nth [OF "4.prems"(2) a] extends_length [OF "4.prems"(2)] a "4.prems"
  show ?case by auto
qed simp_all

lemma same_attributes_directives:
  "same_attributes obj t \<Longrightarrow> object_directives obj = directives t"
  by (cases obj; cases t) simp_all

lemma same_attributes_capable:
  "same_attributes obj t \<Longrightarrow> object_is_selection_capable obj = is_selection_capable t"
  by (cases obj; cases t) simp_all

lemma same_attributes_with_directives:
  "same_attributes obj t \<Longrightarrow> same_attributes (with_object_directives obj ds) (with_directives t ds)"
  by (cases obj; cases t) simp_all

lemma same_attributes_with_selections:
  "same_attributes obj t \<Longrightarrow>
     same_attributes (with_object_selections obj as) (with_selections t ts)"
  by (cases obj; cases t) simp_all

lemma tree_selections_with_directives [simp]:
  "tree_selections (with_directives t ds) = tree_selections t"
  by (cases t) simp_all

lemma tree_selections_with_selections:
  "tree_selections (with_selections t ts) = (if is_selection_capable t then Some ts else None)"
  by (cases t) simp_all

lemma tree_selections_capable:
  "is_selection_capable t \<Longrightarrow> tree_selections t = selection_set t"
  by (cases t) simp_all

lemma with_directives_twice [simp]:
  "with_directives (with_directives t ds1) ds2 = with_directives t ds2"
  by (cases t) simp_all

lemma with_object_directives_twice [simp]:
  "with_object_directives (with_object_directives obj ds1) ds2 = with_object_directives obj ds2"
  by (cases obj) simp_all

lemma list_all2_represents_extends:
  "list_all2 (represents h) as ts \<Longrightarrow> extends h h' \<Longrightarrow> list_all2 (represents h') as ts"
  by (erule list.rel_mono_strong) (rule represents_extends)

lemma represents_rebuilt:
  assumes "represents h c t" and "extends h h'" and "a < length h'"
    and "same_attributes (h' ! a) t'"
    and "object_selections (h' ! a) = object_selections (h ! c)"
    and "tree_selections t' = tree_selections t"
  shows "represents h' a t'"
proof -
  from assms(1) have
    "rel_option (list_all2 (represents h)) (object_selections (h ! c)) (tree_selections t)"
    by (simp add: represents_iff)
  then have
    "rel_option (list_all2 (represents h')) (object_selections (h ! c)) (tree_selections t)"
    by (rule option.rel_mono_strong) (rule list_all2_represents_extends [OF _ assms(2)])
  with assms(3-6) show ?thesis by (simp add: represents_iff)
qed

lemma represents_in_store: "represents h a t \<Longrightarrow> a < length h"
  by (simp add: represents_iff)

lemma represents_lookup: "represents h a t \<Longrightarrow> lookup h a = Inr (h ! a)"
  by (simp add: represents_iff lookup_def)

lemma copied_with_directives:
  assumes "c < length h"
    and "h3 = assign_directives (assign_directives (h @ [h ! c]) (length h) ds1) (length h) ds2"
  shows "extends h h3" and "length h3 = Suc (length h)"
    and "h3 ! length h = with_object_directives (h ! c) ds2"
proof -
  show "extends h h3"
    unfolding assms(2) by (intro extends_assign_directives extends_append) simp_all
  show "length h3 = Suc (length h)" by (simp add: assms(2))
  show "h3 ! length h = with_object_directives (h ! c) ds2"
    by (simp add: assms(2) assign_directives_def)
qed

lemma store_vertex_selections_simulates:
  assumes link: "\<And>h a t. represents h a t \<Longrightarrow> gs (h ! a) = gt t"
    and "list_all2 (represents h) sels ts" and "list_all2 (represents h) ns nts"
  shows "rel_sum (=)
           (\<lambda>(h', ns', rp', fnd') (nts', rp'', fnd'').
               rp'' = rp' \<and> fnd'' = fnd' \<and> extends h h' \<and> list_all2 (represents h') ns' nts')
           (store_vertex_selections gs gpn f d sels (h, ns, rp, fnd))
           (vertex_selections gt gpn f d ts (nts, rp, fnd))"
  using assms(2,3)
proof (induction sels arbitrary: ts h ns nts rp fnd)
  case Nil
  then show ?case by (simp add: extends_refl)
next
  case (Cons c rest)
  from Cons.prems(1) obtain t trest where ts: "ts = t # trest"
    and rep: "represents h c t" and reps: "list_all2 (represents h) rest trest"
    by (auto simp: list_all2_Cons1)
  note lk = represents_lookup [OF rep] and nm = link [OF rep]
  from represents_in_store [OF rep] have cin: "c < length h" .
  show ?case
  proof (cases "gt t")
    case (Inl e)
    with lk nm show ?thesis by (simp add: ts)
  next
    case (Inr fname)
    show ?thesis
    proof (cases "fname = f")
      case False
      from Cons.prems(2) rep have "list_all2 (represents h) (ns @ [c]) (nts @ [t])"
        by (simp add: list_all2_appendI)
      from Cons.IH [OF reps this, of rp fnd] Inr False lk nm show ?thesis
        by (simp add: ts)
    next
      case True
      from rep have sa: "same_attributes (h ! c) t" by (simp add: represents_iff)
      note ds = same_attributes_directives [OF sa]
      define h2 where "h2 = assign_directives (h @ [h ! c]) (length h) (directives t)"
      have cp: "copy_object h c = Inr (h @ [h ! c], length h)"
        using cin by (simp add: copy_object_def lookup_def allocate_def)
      have lk2: "lookup h2 c = Inr (h ! c)"
        using cin by (simp add: h2_def lookup_def assign_directives_def nth_append)
      show ?thesis
      proof (cases "prune_directives gpn d (directives t) ([], rp)")
        case (Inl e)
        with Inr True lk nm cp lk2 [unfolded h2_def] ds show ?thesis
          by (simp add: ts Let_def)
      next
        case pr: (Inr res)
        obtain nd rp1 where res: "res = (nd, rp1)" by (cases res)
        define h3 where "h3 = assign_directives h2 (length h) (nd @ [d])"
        note h3 = copied_with_directives [OF cin h3_def [unfolded h2_def]]
        have new: "represents h3 (length h) (with_directives t (nd @ [d]))"
          by (rule represents_rebuilt [OF rep h3(1)])
            (simp_all add: h3 same_attributes_with_directives [OF sa])
        from list_all2_represents_extends [OF Cons.prems(2) h3(1)] new have
          acc: "list_all2 (represents h3) (ns @ [length h])
                  (nts @ [with_directives t (nd @ [d])])"
          by (simp add: list_all2_appendI)
        from Cons.IH [OF list_all2_represents_extends [OF reps h3(1)] acc, of rp1 True]
        have "rel_sum (=)
           (\<lambda>(h', ns', rp', fnd') (nts', rp'', fnd'').
               rp'' = rp' \<and> fnd'' = fnd' \<and> extends h h' \<and> list_all2 (represents h') ns' nts')
           (store_vertex_selections gs gpn f d rest (h3, ns @ [length h], rp1, True))
           (vertex_selections gt gpn f d trest (nts @ [with_directives t (nd @ [d])], rp1, True))"
          by (rule sum.rel_mono_strong) (auto intro: extends_trans [OF h3(1)])
        with Inr True lk nm cp lk2 [unfolded h2_def] ds pr res show ?thesis
          by (simp add: ts Let_def h3_def h2_def)
      qed
    qed
  qed
qed

lemma store_path_selections_simulates:
  assumes link: "\<And>h a t. represents h a t \<Longrightarrow> gs (h ! a) = gt t"
    and IH: "\<And>h a t. represents h a t \<Longrightarrow>
               rel_sum (=)
                 (\<lambda>(h', a', rm) (t', rm'). rm' = rm \<and> extends h h' \<and> represents h' a' t')
                 (store_add_pagination_filter gs gpn h a ps f d)
                 (add_pagination_filter gt gpn t ps f d)"
    and "list_all2 (represents h) sels ts" and "list_all2 (represents h) ns nts"
  shows "rel_sum (=)
           (\<lambda>(h', ns', rp', fnd') (nts', rp'', fnd'').
               rp'' = rp' \<and> fnd'' = fnd' \<and> extends h h' \<and> list_all2 (represents h') ns' nts')
           (store_path_selections gs gpn p ps f d sels (h, ns, rp, fnd))
           (path_selections gt gpn p ps f d ts (nts, rp, fnd))"
  using assms(3,4)
proof (induction sels arbitrary: ts h ns nts rp fnd)
  case Nil
  then show ?case by (simp add: extends_refl)
next
  case (Cons c rest)
  from Cons.prems(1) obtain t trest where ts: "ts = t # trest"
    and rep: "represents h c t" and reps: "list_all2 (represents h) rest trest"
    by (auto simp: list_all2_Cons1)
  note lk = represents_lookup [OF rep] and nm = link [OF rep]
  show ?case
  proof (cases "gt t")
    case (Inl e)
    with lk nm show ?thesis by (simp add: ts)
  next
    case (Inr fname)
    show ?thesis
    proof (cases "fname = p")
      case False
      from Cons.prems(2) rep have "list_all2 (represents h) (ns @ [c]) (nts @ [t])"
        by (simp add: list_all2_appendI)
      from Cons.IH [OF reps this, of rp fnd] Inr False lk nm show ?thesis
        by (simp add: ts)
    next
      case True
      note call = IH [OF rep]
      show ?thesis
      proof (cases "add_pagination_filter gt gpn t ps f d")
        case (Inl e)
        with call have "store_add_pagination_filter gs gpn h c ps f d = Inl e"
          by (cases "store_add_pagination_filter gs gpn h c ps f d") simp_all
        with Inl Inr True lk nm show ?thesis by (simp add: ts)
      next
        case r: (Inr res)
        obtain t' sub where res: "res = (t', sub)" by (cases res)
        from call r res obtain h1 c1 where
          sr: "store_add_pagination_filter gs gpn h c ps f d = Inr (h1, c1, sub)"
          and e1: "extends h h1" and rep1: "represents h1 c1 t'"
          by (cases "store_add_pagination_filter gs gpn h c ps f d") auto
        from list_all2_represents_extends [OF Cons.prems(2) e1] rep1 have
          acc: "list_all2 (represents h1) (ns @ [c1]) (nts @ [t'])"
          by (simp add: list_all2_appendI)
        from Cons.IH [OF list_all2_represents_extends [OF reps e1] acc, of "rp @ sub" True]
        have "rel_sum (=)
           (\<lambda>(h', ns', rp', fnd') (nts', rp'', fnd'').
               rp'' = rp' \<and> fnd'' = fnd' \<and> extends h h' \<and> list_all2 (represents h') ns' nts')
           (store_path_selections gs gpn p ps f d rest (h1, ns @ [c1], rp @ sub, True))
           (path_selections gt gpn p ps f d trest (nts @ [t'], rp @ sub, True))"
          by (rule sum.rel_mono_strong) (auto intro: extends_trans [OF e1])
        with Inr True lk nm r res sr show ?thesis by (simp add: ts)
      qed
    qed
  qed
qed

lemma rebuilt_root_represents:
  assumes rep: "represents h a t" and cap: "is_selection_capable t"
    and e: "extends h h1" and ns: "list_all2 (represents h1) ns nts"
  shows "\<exists>h'. copy_object h1 a = Inr (h1 @ [h1 ! a], length h1) \<and>
              h' = assign_selection_set (h1 @ [h1 ! a]) (length h1) ns \<and>
              extends h h' \<and> represents h' (length h1) (with_selections t nts)"
proof -
  define h' where "h' = assign_selection_set (h1 @ [h1 ! a]) (length h1) ns"
  from represents_in_store [OF rep] have ain: "a < length h" .
  with extends_length [OF e] have ain1: "a < length h1" by simp
  from extends_nth [OF e ain] have same: "h1 ! a = h ! a" .
  from rep have sa: "same_attributes (h ! a) t" by (simp add: represents_iff)
  with cap have ocap: "object_is_selection_capable (h ! a)"
    by (simp add: same_attributes_capable)
  have cp: "copy_object h1 a = Inr (h1 @ [h1 ! a], length h1)"
    using ain1 by (simp add: copy_object_def lookup_def allocate_def)
  have e1: "extends h1 h'"
    unfolding h'_def by (intro extends_assign_selection_set extends_append) simp
  have len: "length h' = Suc (length h1)" by (simp add: h'_def)
  have at: "h' ! length h1 = with_object_selections (h ! a) ns"
    by (simp add: h'_def assign_selection_set_def same)
  have "represents h' (length h1) (with_selections t nts)"
    unfolding represents_iff [of h' "length h1"]
    using len at cap ocap sa list_all2_represents_extends [OF ns e1]
    by (simp add: same_attributes_with_selections object_selections_with_selections
        tree_selections_with_selections)
  with cp extends_trans [OF e e1] show ?thesis by (simp add: h'_def)
qed

lemma store_add_pagination_filter_simulates:
  assumes link: "\<And>h a t. represents h a t \<Longrightarrow> gs (h ! a) = gt t"
    and rep: "represents h a t"
  shows "rel_sum (=)
           (\<lambda>(h', a', rm) (t', rm'). rm' = rm \<and> extends h h' \<and> represents h' a' t')
           (store_add_pagination_filter gs gpn h a path f d)
           (add_pagination_filter gt gpn t path f d)"
  using rep
proof (induction path arbitrary: h a t)
  case Nil
  note rep = Nil.prems
  note lk = represents_lookup [OF rep]
  from rep have sa: "same_attributes (h ! a) t"
    and ch: "rel_option (list_all2 (represents h)) (object_selections (h ! a)) (tree_selections t)"
    by (simp_all add: represents_iff)
  note capeq = same_attributes_capable [OF sa]
  show ?case
  proof (cases "is_selection_capable t")
    case False
    with lk capeq show ?thesis by simp
  next
    case cap: True
    note tsel = tree_selections_capable [OF cap]
    show ?thesis
    proof (cases "selection_set t")
      case None
      with ch tsel have "object_selections (h ! a) = None" by (cases "object_selections (h ! a)") simp_all
      with None cap lk capeq show ?thesis by simp
    next
      case (Some ts)
      with ch tsel obtain sels where os: "object_selections (h ! a) = Some sels"
        and reps: "list_all2 (represents h) sels ts"
        by (cases "object_selections (h ! a)") simp_all
      have "list_all2 (represents h) [] []" by simp
      note loop = store_vertex_selections_simulates [of gs gt, OF link reps this, of gpn f d "[]" False]
      show ?thesis
      proof (cases "vertex_selections gt gpn f d ts ([], [], False)")
        case (Inl e)
        with loop have "store_vertex_selections gs gpn f d sels (h, [], [], False) = Inl e"
          by (cases "store_vertex_selections gs gpn f d sels (h, [], [], False)") simp_all
        with Inl Some os cap lk capeq show ?thesis by simp
      next
        case r: (Inr res)
        obtain nts rm fnd where res: "res = (nts, rm, fnd)" by (cases res)
        from loop r res obtain h1 ns where
          sr: "store_vertex_selections gs gpn f d sels (h, [], [], False) = Inr (h1, ns, rm, fnd)"
          and e1: "extends h h1" and nsrep: "list_all2 (represents h1) ns nts"
          by (cases "store_vertex_selections gs gpn f d sels (h, [], [], False)") auto
        show ?thesis
        proof (cases fnd)
          case True
          from rebuilt_root_represents [OF rep cap e1 nsrep] True r res sr Some os cap lk capeq
          show ?thesis by simp
        next
          case False
          define h2 where "h2 = h1 @ [FieldObject None f None [d] None]"
          have e12: "extends h1 h2" unfolding h2_def by (rule extends_append)
          have "represents h2 (length h1) (FieldNode None f None [d] None)"
            by (simp add: h2_def)
          with list_all2_represents_extends [OF nsrep e12] have
            "list_all2 (represents h2) (length h1 # ns) (FieldNode None f None [d] None # nts)"
            by simp
          from rebuilt_root_represents [OF rep cap extends_trans [OF e1 e12] this]
            False r res sr Some os cap lk capeq
          show ?thesis by (simp add: allocate_def h2_def)
        qed
      qed
    qed
  qed
next
  case (Cons p ps)
  note rep = Cons.prems
  note lk = represents_lookup [OF rep]
  from rep have sa: "same_attributes (h ! a) t"
    and ch: "rel_option (list_all2 (represents h)) (object_selections (h ! a)) (tree_selections t)"
    by (simp_all add: represents_iff)
  note capeq = same_attributes_capable [OF sa]
  show ?case
  proof (cases "is_selection_capable t")
    case False
    with lk capeq show ?thesis by simp
  next
    case cap: True
    note tsel = tree_selections_capable [OF cap]
    show ?thesis
    proof (cases "selection_set t")
      case None
      with ch tsel have "object_selections (h ! a) = None" by (cases "object_selections (h ! a)") simp_all
      with None cap lk capeq show ?thesis by simp
    next
      case (Some ts)
      with ch tsel obtain sels where os: "object_selections (h ! a) = Some sels"
        and reps: "list_all2 (represents h) sels ts"
        by (cases "object_selections (h ! a)") simp_all
      have "list_all2 (represents h) [] []" by simp
      note loop = store_path_selections_simulates [of gs gt gpn ps f d, OF link Cons.IH reps this,
          of p "[]" False]
      show ?thesis
      proof (cases "path_selections gt gpn p ps f d ts ([], [], False)")
        case (Inl e)
        with loop have "store_path_selections gs gpn p ps f d sels (h, [], [], False) = Inl e"
          by (cases "store_path_selections gs gpn p ps f d sels (h, [], [], False)") simp_all
        with Inl Some os cap lk capeq show ?thesis by simp
      next
        case r: (Inr res)
        obtain nts rm fnd where res: "res = (nts, rm, fnd)" by (cases res)
        from loop r res obtain h1 ns where
          sr: "store_path_selections gs gpn p ps f d sels (h, [], [], False) = Inr (h1, ns, rm, fnd)"
          and e1: "extends h h1" and nsrep: "list_all2 (represents h1) ns nts"
          by (cases "store_path_selections gs gpn p ps f d sels (h, [], [], False)") auto
        show ?thesis
        proof (cases fnd)
          case True
          from rebuilt_root_represents [OF rep cap e1 nsrep] True r res sr Some os cap lk capeq
          show ?thesis by simp
        next
          case False
          with r res sr Some os cap lk capeq show ?thesis by simp
        qed
      qed
    qed
  qed
qed

text \<open>
  Claim C7. On a store without dangling addresses, \<^verbatim>\<open>_add_pagination_filter\<close> and
  \<^verbatim>\<open>generate_parameterized_queries\<close> write to no object that was there before the
  call: every object of the input, the nodes of the original AST among them, is in
  the resulting store at its address with every attribute as it was. The roots they
  return are new objects. Below a returned root, the selections off the partition
  path, and at the target vertex the selections on other fields than the pagination
  field, are the addresses of the input's own selections: the same objects, unchanged.
  The objects on the path, the selections on the pagination field and the new field
  are the only new ones. The parameters are never assigned to.
  By \<open>store_add_pagination_filter_simulates\<close> the trees that the new roots stand for
  are the ones that \<open>add_pagination_filter\<close> returns.
\<close>

theorem store_parameterizer_frame:
  assumes "closed h"
  shows "(store_add_pagination_filter gfn gpn h a path f d = Inr (h', a', removed) \<longrightarrow>
            extends h h' \<and> closed h' \<and> shares gfn h h' path f a a') \<and>
         (store_generate_parameterized_queries gq gfn gpn h doc params path f
            = Inr (h'', (page_doc, page_params), (rem_doc, rem_params), name) \<longrightarrow>
            extends h h'' \<and> closed h'' \<and>
            (\<exists>qt page_root remainder_root.
               gq h doc = Inr qt \<and> page_doc = [page_root] \<and> rem_doc = [remainder_root] \<and>
               shares gfn h h'' path f qt page_root \<and>
               shares gfn h h'' path f qt remainder_root))"
proof (rule conjI; rule impI)
  assume "store_add_pagination_filter gfn gpn h a path f d = Inr (h', a', removed)"
  from store_add_pagination_filter_frame [OF this assms]
  show "extends h h' \<and> closed h' \<and> shares gfn h h' path f a a'" .
next
  assume run: "store_generate_parameterized_queries gq gfn gpn h doc params path f
            = Inr (h'', (page_doc, page_params), (rem_doc, rem_params), name)"
  let ?n = "generate_new_name ''__paged_param'' (fmdom params)"
  from run obtain qt h1 pr prm rr rrm where qt: "gq h doc = Inr qt"
    and page: "store_add_pagination_filter gfn gpn h qt path f
                 (make_binary_filter_directive_node ''<'' ?n) = Inr (h1, pr, prm)"
    and rem: "store_add_pagination_filter gfn gpn h1 qt path f
                 (make_binary_filter_directive_node ''>='' ?n) = Inr (h'', rr, rrm)"
    and docs: "page_doc = [pr]" "rem_doc = [rr]"
    by (auto simp: store_generate_parameterized_queries_def Let_def split: sum.splits)
  from store_add_pagination_filter_frame [OF page assms] have
    e1: "extends h h1" and c1: "closed h1" and s1: "shares gfn h h1 path f qt pr" by simp_all
  from store_add_pagination_filter_frame [OF rem c1] have
    e2: "extends h1 h''" and c2: "closed h''" and s2: "shares gfn h1 h'' path f qt rr" by simp_all
  from shares_root_in_store [OF s1] have qin: "qt < length h" .
  from shares_extend [OF s1 extends_refl e2 assms qin] have p: "shares gfn h h'' path f qt pr" .
  from shares_extend [OF s2 e1 extends_refl assms qin] have r: "shares gfn h h'' path f qt rr" .
  from extends_trans [OF e1 e2] c2 qt docs p r
  show "extends h h'' \<and> closed h'' \<and>
            (\<exists>qt page_root remainder_root.
               gq h doc = Inr qt \<and> page_doc = [page_root] \<and> rem_doc = [remainder_root] \<and>
               shares gfn h h'' path f qt page_root \<and>
               shares gfn h h'' path f qt remainder_root)"
    by blast
qed

lemma closed_filtered_store: "closed filtered_store"
  by (simp add: closed_def filtered_store_def)

lemma run_paged_store:
  "store_add_pagination_filter node_field_name get_parameter_name filtered_store 0
     [''Animal''] ''uuid'' (make_binary_filter_directive_node ''<'' ''new'')
   = Inr (paged_store, 6, [''old''])"
  by (simp add: paged_store_def
      filtered_store_def lookup_def copy_object_def allocate_def assign_directives_def
      assign_selection_set_def old_filter_def output_animal_def
      make_binary_filter_directive_node_def get_filter_node_operation_def
      get_binary_filter_node_parameter_def Let_def nth_append)

lemma run_split_store:
  "store_generate_parameterized_queries only_definition node_field_name get_parameter_name
     filtered_store [0] (fmupd ''old'' (StrLit ''80000000-0000-0000-0000-000000000000'') fmempty)
     [''Animal''] ''uuid''
   = Inr (split_store, ([6], fmempty),
          ([9], fmupd ''old'' (StrLit ''80000000-0000-0000-0000-000000000000'') fmempty),
          ''__paged_param_0'')"
  by (simp add: split_store_def
      store_generate_parameterized_queries_def only_definition_def
      filtered_store_def lookup_def copy_object_def allocate_def assign_directives_def
      assign_selection_set_def old_filter_def output_animal_def
      make_binary_filter_directive_node_def get_filter_node_operation_def
      get_binary_filter_node_parameter_def generate_new_name_def generate_new_name_from.simps
      format_name_def str_of_nat.simps digit_char_def Let_def nth_append)

theorem store_parameterizer_frame_witness:
  "(extends filtered_store paged_store \<and> closed paged_store \<and>
    shares node_field_name filtered_store paged_store [''Animal''] ''uuid'' 0 6) \<and>
   (extends filtered_store split_store \<and> closed split_store \<and>
    (\<exists>qt page_root remainder_root.
       only_definition filtered_store [0] = Inr qt \<and> [6] = [page_root] \<and>
       [9] = [remainder_root] \<and>
       shares node_field_name filtered_store split_store [''Animal''] ''uuid'' qt page_root \<and>
       shares node_field_name filtered_store split_store [''Animal''] ''uuid'' qt
         remainder_root))"
  by (rule conjI)
    (rule store_parameterizer_frame
       [OF closed_filtered_store, THEN conjunct1, THEN mp, OF run_paged_store],
     rule store_parameterizer_frame
       [OF closed_filtered_store, THEN conjunct2, THEN mp, OF run_split_store])

end
